theory Spec2Isabelle
  imports
    Main
    "HOL-Library.List_Lexorder"
    "HOL-Library.Product_Lexorder"
    "HOL-Library.Char_ord"
    "HOL-Library.Multiset"
    "HOL-Library.AList"
begin

section \<open>Errors\<close>

text \<open>
  The planner reports failures by throwing: \<^verbatim>\<open>uassert(code, msg, cond)\<close> throws a user
  exception carrying a numeric code (or the named code \<^verbatim>\<open>ErrorCodes::InvalidOptions\<close>) and a
  message, \<^verbatim>\<open>invariant(cond)\<close> aborts. The model returns \<open>Error + 'a\<close>. Of a message only the
  values streamed into it are kept, in the order they are streamed. \<open>UndefinedBehaviour\<close>
  stands for what C++ leaves undefined (a division by zero, an index past the end of a
  vector, dereferencing an end iterator or an empty optional).
\<close>

datatype Diag = DStr string | DNum int

datatype ErrorCode = InvalidOptions | RangeOverlapConflict | Location nat

datatype Error =
    UserAssertion ErrorCode "Diag list"
  | InvariantFailure
  | UndefinedBehaviour

section \<open>Shard keys\<close>

text \<open>
  Modelled from the spec: \<^verbatim>\<open>BSONObj\<close>, \<^verbatim>\<open>BSONElement\<close> and the comparator
  \<^verbatim>\<open>SimpleBSONObjComparator\<close> are declared outside the planner's source file. A shard-key
  value is an ordered tuple of named, typed values; comparison is lexicographic per field,
  and the sentinels MinKey and MaxKey are strictly less and strictly greater than any
  concrete value. Objects are lists of elements, ordered lexicographically.
\<close>

datatype BSONValue = MinKey | BsonNull | NumberLong int | BsonString string | MaxKey

fun canonicalType :: "BSONValue \<Rightarrow> nat" where
  "canonicalType MinKey = 0"
| "canonicalType BsonNull = 1"
| "canonicalType (NumberLong _) = 2"
| "canonicalType (BsonString _) = 3"
| "canonicalType MaxKey = 4"

fun compareSameType :: "BSONValue \<Rightarrow> BSONValue \<Rightarrow> bool" where
  "compareSameType (NumberLong a) (NumberLong b) = (a \<le> b)"
| "compareSameType (BsonString s) (BsonString t) = (s \<le> t)"
| "compareSameType _ _ = True"

instantiation BSONValue :: linorder
begin

definition less_eq_BSONValue :: "BSONValue \<Rightarrow> BSONValue \<Rightarrow> bool" where
  "less_eq_BSONValue a b \<longleftrightarrow>
     canonicalType a < canonicalType b \<or>
     (canonicalType a = canonicalType b \<and> compareSameType a b)"

definition less_BSONValue :: "BSONValue \<Rightarrow> BSONValue \<Rightarrow> bool" where
  "less_BSONValue a b \<longleftrightarrow> a \<le> b \<and> \<not> b \<le> (a :: BSONValue)"

instance
proof
  fix x y z :: BSONValue
  show "(x < y) = (x \<le> y \<and> \<not> y \<le> x)"
    by (simp add: less_BSONValue_def)
  show "x \<le> x"
    by (cases x) (simp_all add: less_eq_BSONValue_def)
  show "x \<le> y \<Longrightarrow> y \<le> z \<Longrightarrow> x \<le> z"
    by (cases x; cases y; cases z) (auto simp: less_eq_BSONValue_def)
  show "x \<le> y \<Longrightarrow> y \<le> x \<Longrightarrow> x = y"
    by (cases x; cases y) (auto simp: less_eq_BSONValue_def)
  show "x \<le> y \<or> y \<le> x"
    by (cases x; cases y) (auto simp: less_eq_BSONValue_def)
qed

end

type_synonym BSONElement = "string \<times> BSONValue"
type_synonym BSONObj = "BSONElement list"

text \<open>\<^verbatim>\<open>a.woCompare(b)\<close>: negative, zero or positive.\<close>

definition woCompare :: "BSONObj \<Rightarrow> BSONObj \<Rightarrow> int" where
  "woCompare a b = (if a < b then - 1 else if a = b then 0 else 1)"

text \<open>
  Modelled from the spec: \<^verbatim>\<open>ShardKeyPattern\<close> and \<^verbatim>\<open>KeyPattern\<close> are declared outside the
  planner's source file. A pattern is an ordered list of field specifications, each an
  ordinary ascending field or the hashed field; \<open>globalMin\<close> has every field at MinKey,
  \<open>globalMax\<close> every field at MaxKey, and \<open>extendRangeBound\<close> fills the trailing fields a
  bound leaves unspecified with MinKey or MaxKey. A pattern is hashed-prefix iff its first
  field is the hashed field.
\<close>

datatype KeyFieldKind = Ascending | Hashed

type_synonym ShardKeyPattern = "(string \<times> KeyFieldKind) list"

definition isHashedPattern :: "ShardKeyPattern \<Rightarrow> bool" where
  "isHashedPattern p = list_ex (\<lambda>f. snd f = Hashed) p"

definition hasHashedPrefix :: "ShardKeyPattern \<Rightarrow> bool" where
  "hasHashedPrefix p = (case p of [] \<Rightarrow> False | f # _ \<Rightarrow> snd f = Hashed)"

definition getHashedField :: "ShardKeyPattern \<Rightarrow> string" where
  "getHashedField p = (case find (\<lambda>f. snd f = Hashed) p of Some f \<Rightarrow> fst f | None \<Rightarrow> [])"

definition globalMin :: "ShardKeyPattern \<Rightarrow> BSONObj" where
  "globalMin p = map (\<lambda>f. (fst f, MinKey)) p"

definition globalMax :: "ShardKeyPattern \<Rightarrow> BSONObj" where
  "globalMax p = map (\<lambda>f. (fst f, MaxKey)) p"

definition extendRangeBound :: "ShardKeyPattern \<Rightarrow> BSONObj \<Rightarrow> bool \<Rightarrow> BSONObj" where
  "extendRangeBound p bound makeUpperInclusive =
     bound @ map (\<lambda>f. (fst f, if makeUpperInclusive then MaxKey else MinKey))
               (drop (length bound) p)"

section \<open>Chunks and versions\<close>

type_synonym ShardId = string
type_synonym Timestamp = nat
type_synonym OID = nat
type_synonym UUID = nat

text \<open>
  Modelled from the spec: \<^verbatim>\<open>ChunkVersion\<close> is declared outside the planner's source file.
  A version is \<open>((epoch, timestamp), (major, minor))\<close>; \<open>incMinor\<close> increments the minor
  counter, and versions of one epoch are ordered lexicographically by \<open>(major, minor)\<close>.
\<close>

record ChunkVersion =
  epoch :: OID
  timestamp :: Timestamp
  majorVersion :: nat
  minorVersion :: nat

definition incMinor :: "ChunkVersion \<Rightarrow> ChunkVersion" where
  "incMinor v = v\<lparr>minorVersion := minorVersion v + 1\<rparr>"

definition versionLess :: "ChunkVersion \<Rightarrow> ChunkVersion \<Rightarrow> bool" where
  "versionLess v w \<longleftrightarrow>
     majorVersion v < majorVersion w \<or>
     (majorVersion v = majorVersion w \<and> minorVersion v < minorVersion w)"

record ChunkRange =
  getMin :: BSONObj
  getMax :: BSONObj

record ChunkHistory =
  historyValidAfter :: Timestamp
  historyShard :: ShardId

record ChunkType =
  getCollectionUUID :: UUID
  getRange :: ChunkRange
  getVersion :: ChunkVersion
  getShard :: ShardId
  getOnCurrentShardSince :: "Timestamp option"
  getHistory :: "ChunkHistory list"

record SplitPolicyParams =
  collectionUUID :: UUID
  primaryShardId :: ShardId

text \<open>
  \<open>appendChunk\<close> creates a chunk with the current version, appends it and increments the
  version. The version and the vector are passed by pointer in the source; the model
  returns both.
\<close>

definition appendChunk ::
  "SplitPolicyParams \<Rightarrow> BSONObj \<Rightarrow> BSONObj \<Rightarrow> ChunkVersion \<Rightarrow> ShardId \<Rightarrow> ChunkType list
     \<Rightarrow> ChunkVersion \<times> ChunkType list" where
  "appendChunk params minKey maxKey vers shardId chunks =
     (let chunk = \<lparr>getCollectionUUID = collectionUUID params,
                   getRange = \<lparr>getMin = minKey, getMax = maxKey\<rparr>,
                   getVersion = vers,
                   getShard = shardId,
                   getOnCurrentShardSince = Some (timestamp vers),
                   getHistory = [\<lparr>historyValidAfter = timestamp vers,
                                    historyShard = shardId\<rparr>]\<rparr>
      in (incMinor vers, chunks @ [chunk]))"

section \<open>Containers and the environment\<close>

text \<open>
  A \<^verbatim>\<open>StringMap\<close> or \<^verbatim>\<open>unordered_map\<close> is an association list with distinct keys:
  \<^verbatim>\<open>find\<close> is \<open>map_of\<close>, \<^verbatim>\<open>m[k] = v\<close> is \<open>AList.update\<close>, \<^verbatim>\<open>size()\<close> is \<open>length\<close>. The planner
  never iterates over such a map.
\<close>

type_synonym ('k, 'v) UnorderedMap = "('k \<times> 'v) list"

text \<open>
  A \<^verbatim>\<open>BSONObjSet\<close> is a \<^verbatim>\<open>std::set\<close> ordered by the comparator: a strictly ascending list.
  \<open>setInsert\<close> also returns whether the element was inserted (\<^verbatim>\<open>result.second\<close>).
\<close>

fun setInsert :: "'a::linorder \<Rightarrow> 'a list \<Rightarrow> 'a list \<times> bool" where
  "setInsert x [] = ([x], True)"
| "setInsert x (y # ys) =
     (if x < y then (x # y # ys, True)
      else if y < x then (y # fst (setInsert x ys), snd (setInsert x ys))
      else (y # ys, False))"

definition setErase :: "'a \<Rightarrow> 'a list \<Rightarrow> 'a list" where
  "setErase x xs = removeAll x xs"

text \<open>A loop over a container whose body may throw.\<close>

fun forEachM :: "('a \<Rightarrow> 's \<Rightarrow> Error + 's) \<Rightarrow> 'a list \<Rightarrow> 's \<Rightarrow> Error + 's" where
  "forEachM f [] s = Inr s"
| "forEachM f (x # xs) s = (case f x s of Inl e \<Rightarrow> Inl e | Inr s' \<Rightarrow> forEachM f xs s')"

text \<open>\<^verbatim>\<open>v[i]\<close> on a vector: undefined past the end.\<close>

definition vectorAt :: "'a list \<Rightarrow> nat \<Rightarrow> Error + 'a" where
  "vectorAt xs i = (if i < length xs then Inr (xs ! i) else Inl UndefinedBehaviour)"

text \<open>\<^verbatim>\<open>size_t\<close> is 64 bits wide; an \<^verbatim>\<open>int\<close> converted to it is reduced modulo \<open>2 ^ 64\<close>.\<close>

definition wrapSizeT :: "nat \<Rightarrow> nat" where
  "wrapSizeT x = x mod 2 ^ 64"

definition sizeTOfInt :: "int \<Rightarrow> nat" where
  "sizeTOfInt i = nat (i mod 2 ^ 64)"

definition intOfSizeT :: "nat \<Rightarrow> int" where
  "intOfSizeT x = (int x + 2 ^ 31) mod 2 ^ 32 - 2 ^ 31"

record ShardType =
  getName :: string
  getTags :: "string list"

record TagsType =
  getNS :: string
  getTag :: string
  getMinKey :: BSONObj
  getMaxKey :: BSONObj

text \<open>
  What the planner reads through \<^verbatim>\<open>opCtx\<close>: the shard registry's list of shard ids, the
  permutation \<^verbatim>\<open>std::shuffle\<close> applies with a default-constructed engine, the documents of
  \<^verbatim>\<open>config.shards\<close> (the query may fail, and so may \<^verbatim>\<open>ShardType::fromBSON\<close> on each
  document), the cluster time and the value of \<^verbatim>\<open>OID::gen()\<close>.
\<close>

record OperationContext =
  getAllShardIds :: "ShardId list"
  shuffle :: "ShardId list \<Rightarrow> ShardId list"
  exhaustiveFindOnConfigShards :: "Error + (Error + ShardType) list"
  clusterTime :: Timestamp
  genOID :: OID

definition getAllShardIdsShuffled :: "OperationContext \<Rightarrow> ShardId list" where
  "getAllShardIdsShuffled opCtx = shuffle opCtx (getAllShardIds opCtx)"

definition initialVersion :: "OperationContext \<Rightarrow> Timestamp \<Rightarrow> ChunkVersion" where
  "initialVersion opCtx validAfter =
     \<lparr>epoch = genOID opCtx, timestamp = validAfter, majorVersion = 1, minorVersion = 0\<rparr>"

section \<open>Zones\<close>

text \<open>
  Modelled from the spec: \<^verbatim>\<open>ZoneInfo\<close> is declared outside the planner's source file. Zones
  do not overlap; \<open>getZoneForChunk\<close> gives the name of the zone containing a range, and the
  empty name for an unzoned range.
\<close>

record ZoneRange =
  zoneMin :: BSONObj
  zoneMax :: BSONObj
  zoneName :: string

type_synonym ZoneInfo = "ZoneRange list"

definition addRangeToZone :: "ZoneInfo \<Rightarrow> ZoneRange \<Rightarrow> Error + ZoneInfo" where
  "addRangeToZone zoneInfo r =
     (if list_ex (\<lambda>z. zoneMin z < zoneMax r \<and> zoneMin r < zoneMax z) zoneInfo
      then Inl (UserAssertion RangeOverlapConflict [DStr (zoneName r)])
      else Inr (zoneInfo @ [r]))"

definition getZoneForChunk :: "ZoneInfo \<Rightarrow> ChunkRange \<Rightarrow> string" where
  "getZoneForChunk zoneInfo chunkRange =
     (case find (\<lambda>z. zoneMin z \<le> getMin chunkRange \<and> getMax chunkRange \<le> zoneMax z) zoneInfo of
        Some z \<Rightarrow> zoneName z
      | None \<Rightarrow> [])"

section \<open>Helpers of the planner\<close>

text \<open>
  \<open>selectBestShard\<close>: an iterator into the chunk map is an optional entry, \<open>None\<close> for
  \<^verbatim>\<open>end()\<close>. The loop condition dereferences the candidate only when a best shard is
  already held.
\<close>

fun selectBestShardLoop ::
  "(ShardId, nat) UnorderedMap \<Rightarrow> ShardId list \<Rightarrow> (ShardId \<times> nat) option
     \<Rightarrow> Error + (ShardId \<times> nat) option" where
  "selectBestShardLoop chunkMap [] bestShardIter = Inr bestShardIter"
| "selectBestShardLoop chunkMap (shard # shards) bestShardIter =
     (let candidateIter = map_option (\<lambda>n. (shard, n)) (map_of chunkMap shard)
      in case bestShardIter of
           None \<Rightarrow> selectBestShardLoop chunkMap shards candidateIter
         | Some best \<Rightarrow>
             (case candidateIter of
                None \<Rightarrow> Inl UndefinedBehaviour
              | Some candidate \<Rightarrow>
                  if snd candidate < snd best
                  then selectBestShardLoop chunkMap shards candidateIter
                  else selectBestShardLoop chunkMap shards bestShardIter))"

definition selectBestShard ::
  "(ShardId, nat) UnorderedMap \<Rightarrow> ZoneInfo \<Rightarrow> (string, ShardId list) UnorderedMap \<Rightarrow> ChunkRange
     \<Rightarrow> Error + ShardId" where
  "selectBestShard chunkMap zoneInfo zoneToShards chunkRange =
     (let zone = getZoneForChunk zoneInfo chunkRange
      in case map_of zoneToShards zone of
           None \<Rightarrow> Inl (UserAssertion (Location 4952605) [DStr zone])
         | Some shards \<Rightarrow>
             if shards = [] then Inl (UserAssertion (Location 4952607) [DStr zone])
             else (case selectBestShardLoop chunkMap shards None of
                     Inl e \<Rightarrow> Inl e
                   | Inr None \<Rightarrow> Inl InvariantFailure
                   | Inr (Some best) \<Rightarrow> Inr (fst best)))"

text \<open>\<^verbatim>\<open>tagToShardIds[tag].push_back(name)\<close> for every tag of a shard document.\<close>

definition pushBackShard :: "ShardId \<Rightarrow> string \<Rightarrow> (string, ShardId list) UnorderedMap
     \<Rightarrow> (string, ShardId list) UnorderedMap" where
  "pushBackShard name tag m =
     AList.update tag ((case map_of m tag of None \<Rightarrow> [] | Some l \<Rightarrow> l) @ [name]) m"

text \<open>The body of the loop over the shard documents: parse, then record every tag.\<close>

definition addShardDoc ::
  "Error + ShardType \<Rightarrow> (string, ShardId list) UnorderedMap
     \<Rightarrow> Error + (string, ShardId list) UnorderedMap" where
  "addShardDoc shardDoc m =
     (case shardDoc of
        Inl e \<Rightarrow> Inl e
      | Inr parsedShard \<Rightarrow>
          Inr (fold (pushBackShard (getName parsedShard)) (getTags parsedShard) m))"

definition buildTagsToShardIdsMap ::
  "OperationContext \<Rightarrow> TagsType list \<Rightarrow> Error + (string, ShardId list) UnorderedMap" where
  "buildTagsToShardIdsMap opCtx tagList =
     (if tagList = [] then Inr []
      else
        case exhaustiveFindOnConfigShards opCtx of
          Inl e \<Rightarrow> Inl e
        | Inr shardDocs \<Rightarrow>
            if shardDocs = [] then Inl (UserAssertion (Location 50986) [])
            else forEachM addShardDoc shardDocs
                   (fold (\<lambda>tag m. AList.update (getTag tag) [] m) tagList []))"

definition extractSplitPointsFromZones ::
  "ShardKeyPattern \<Rightarrow> TagsType list option \<Rightarrow> BSONObj list" where
  "extractSplitPointsFromZones shardKey zones =
     (case zones of
        None \<Rightarrow> []
      | Some zs \<Rightarrow>
          setErase (globalMax shardKey)
            (setErase (globalMin shardKey)
               (fold (\<lambda>zone s. fst (setInsert (getMaxKey zone) (fst (setInsert (getMinKey zone) s))))
                  zs [])))"

record ShardKeyRange =
  rangeShard :: ShardId
  rangeMin :: "BSONObj option"
  rangeMax :: "BSONObj option"

definition insertTag :: "ShardId \<Rightarrow> string \<Rightarrow> (ShardId, string list) UnorderedMap
     \<Rightarrow> (ShardId, string list) UnorderedMap" where
  "insertTag name tag m =
     AList.update name (List.insert tag (case map_of m name of None \<Rightarrow> [] | Some l \<Rightarrow> l)) m"

definition addShardDocTags ::
  "Error + ShardType \<Rightarrow> (ShardId, string list) UnorderedMap
     \<Rightarrow> Error + (ShardId, string list) UnorderedMap" where
  "addShardDocTags shardDoc m =
     (case shardDoc of
        Inl e \<Rightarrow> Inl e
      | Inr parsedShard \<Rightarrow>
          Inr (fold (insertTag (getName parsedShard)) (getTags parsedShard) m))"

definition buildShardIdToTagsMap ::
  "OperationContext \<Rightarrow> ShardKeyRange list \<Rightarrow> Error + (ShardId, string list) UnorderedMap" where
  "buildShardIdToTagsMap opCtx shards =
     (if shards = [] then Inr []
      else
        case exhaustiveFindOnConfigShards opCtx of
          Inl e \<Rightarrow> Inl e
        | Inr shardDocs \<Rightarrow>
            if shardDocs = [] then Inl (UserAssertion (Location 7661502) [])
            else forEachM addShardDocTags shardDocs
                   (fold (\<lambda>shard m. AList.update (rangeShard shard) [] m) shards []))"

section \<open>Hashed split points\<close>

text \<open>
  \<^verbatim>\<open>long long\<close> arithmetic: a result is reduced to the signed 64-bit range. The divisions
  below have non-negative operands, where C++ and HOL division agree.
\<close>

definition LLONG_MAX :: int where
  "LLONG_MAX = 2 ^ 63 - 1"

definition INT_MAX :: int where
  "INT_MAX = 2 ^ 31 - 1"

definition wrapLongLong :: "int \<Rightarrow> int" where
  "wrapLongLong x = (x + 2 ^ 63) mod 2 ^ 64 - 2 ^ 63"

text \<open>
  The lambda \<open>buildSplitPoint\<close>: the iterator over the pattern is forwarded past the hashed
  field, the prefix is copied, the hashed field is appended with the value, and every
  later field of the pattern is appended as MinKey.
\<close>

definition fieldsAfterHashed :: "ShardKeyPattern \<Rightarrow> (string \<times> KeyFieldKind) list" where
  "fieldsAfterHashed p = drop 1 (dropWhile (\<lambda>f. fst f \<noteq> getHashedField p) p)"

definition buildSplitPoint :: "ShardKeyPattern \<Rightarrow> BSONObj \<Rightarrow> int \<Rightarrow> BSONObj" where
  "buildSplitPoint p prefix v =
     prefix @ [(getHashedField p, NumberLong v)] @ map (\<lambda>f. (fst f, MinKey)) (fieldsAfterHashed p)"

text \<open>The \<^verbatim>\<open>for\<close> loop, by the number of iterations left.\<close>

fun splitPointsLoop ::
  "ShardKeyPattern \<Rightarrow> BSONObj \<Rightarrow> int \<Rightarrow> nat \<Rightarrow> int \<Rightarrow> BSONObj list \<Rightarrow> BSONObj list" where
  "splitPointsLoop p prefix intervalSize 0 current splitPoints = splitPoints"
| "splitPointsLoop p prefix intervalSize (Suc k) current splitPoints =
     splitPointsLoop p prefix intervalSize k (wrapLongLong (current + intervalSize))
       (splitPoints @ [buildSplitPoint p prefix current,
                       buildSplitPoint p prefix (wrapLongLong (- current))])"

definition calculateHashedSplitPoints ::
  "ShardKeyPattern \<Rightarrow> BSONObj \<Rightarrow> int \<Rightarrow> Error + BSONObj list" where
  "calculateHashedSplitPoints p prefix numInitialChunks =
     (if \<not> isHashedPattern p then Inl InvariantFailure
      else if \<not> numInitialChunks > 0 then Inl InvariantFailure
      else if numInitialChunks = 1 then Inr []
      else
        let intervalSize = wrapLongLong ((LLONG_MAX div numInitialChunks) * 2);
            start =
              (if numInitialChunks mod 2 = 0
               then ([buildSplitPoint p prefix 0], wrapLongLong (0 + intervalSize))
               else ([], wrapLongLong (0 + intervalSize div 2)))
        in Inr (sort (splitPointsLoop p prefix intervalSize
                        (nat ((numInitialChunks - 1) div 2)) (snd start) (fst start))))"

section \<open>Split-points based chunks\<close>

text \<open>
  One iteration of the loop of \<open>generateShardCollectionInitialChunks\<close>. The index \<open>i\<close> is a
  \<^verbatim>\<open>size_t\<close>, so the \<^verbatim>\<open>int\<close> \<open>numContiguousChunksPerShard\<close> is converted to \<^verbatim>\<open>size_t\<close> before
  the division.
\<close>

definition generateChunk ::
  "SplitPolicyParams \<Rightarrow> ShardKeyPattern \<Rightarrow> BSONObj list \<Rightarrow> ShardId list \<Rightarrow> int \<Rightarrow> nat
     \<Rightarrow> ChunkVersion \<times> ChunkType list \<Rightarrow> Error + ChunkVersion \<times> ChunkType list" where
  "generateChunk params shardKeyPattern finalSplitPoints allShardIds numContiguousChunksPerShard i st =
     (let minKey = (if i = 0 then globalMin shardKeyPattern else finalSplitPoints ! (i - 1));
          maxKey = (if i < length finalSplitPoints then finalSplitPoints ! i
                    else globalMax shardKeyPattern)
      in if sizeTOfInt numContiguousChunksPerShard = 0 then Inl UndefinedBehaviour
         else
           let shardId = allShardIds !
                 ((i div sizeTOfInt numContiguousChunksPerShard) mod length allShardIds)
           in Inr (appendChunk params minKey maxKey (fst st) shardId (snd st)))"

definition generateShardCollectionInitialChunks ::
  "OperationContext \<Rightarrow> SplitPolicyParams \<Rightarrow> ShardKeyPattern \<Rightarrow> Timestamp \<Rightarrow> BSONObj list
     \<Rightarrow> ShardId list \<Rightarrow> int \<Rightarrow> Error + ChunkType list" where
  "generateShardCollectionInitialChunks opCtx params shardKeyPattern validAfter splitPointList
       allShardIds numContiguousChunksPerShard =
     (if allShardIds = [] then Inl InvariantFailure
      else
        let orderedPts = fold (\<lambda>splitPoint s. fst (setInsert splitPoint s)) splitPointList [];
            finalSplitPoints = orderedPts
        in case forEachM
                  (generateChunk params shardKeyPattern finalSplitPoints allShardIds
                     numContiguousChunksPerShard)
                  [0..<Suc (length finalSplitPoints)]
                  (initialVersion opCtx validAfter, []) of
             Inl e \<Rightarrow> Inl e
           | Inr st \<Rightarrow> Inr (snd st))"

section \<open>The single-chunk and split-points policies\<close>

definition singleChunkOnPrimaryCreateFirstChunks ::
  "OperationContext \<Rightarrow> ShardKeyPattern \<Rightarrow> SplitPolicyParams \<Rightarrow> Error + ChunkType list" where
  "singleChunkOnPrimaryCreateFirstChunks opCtx shardKeyPattern params =
     (let validAfter = clusterTime opCtx
      in Inr (snd (appendChunk params (globalMin shardKeyPattern) (globalMax shardKeyPattern)
                     (initialVersion opCtx validAfter) (primaryShardId params) [])))"

definition splitPointsBasedCreateFirstChunks ::
  "BSONObj list \<Rightarrow> int \<Rightarrow> OperationContext \<Rightarrow> ShardKeyPattern \<Rightarrow> SplitPolicyParams
     \<Rightarrow> Error + ChunkType list" where
  "splitPointsBasedCreateFirstChunks m_splitPoints m_numContiguousChunksPerShard opCtx
       shardKeyPattern params =
     (let shardIds = getAllShardIdsShuffled opCtx;
          validAfter = clusterTime opCtx
      in generateShardCollectionInitialChunks opCtx params shardKeyPattern validAfter
           m_splitPoints shardIds m_numContiguousChunksPerShard)"

section \<open>The tags based policies\<close>

text \<open>
  The data members \<^verbatim>\<open>_tags\<close> and \<^verbatim>\<open>_tagToShardIds\<close> of the abstract policy, extended by each
  subclass with its own members.
\<close>

record AbstractTagsBasedSplitPolicy =
  m_tags :: "TagsType list"
  m_tagToShardIds :: "(string, ShardId list) UnorderedMap"

record SingleChunkPerTagSplitPolicy = AbstractTagsBasedSplitPolicy +
  m_nextShardIndexForZone :: "(string, nat) UnorderedMap"

record PresplitHashedZonesSplitPolicy = AbstractTagsBasedSplitPolicy +
  m_numInitialChunks :: nat
  m_numTagsPerShard :: "(string, nat) UnorderedMap"

record SplitInfo =
  splitPointsOf :: "BSONObj list"
  chunkDistributionOf :: "(ShardId \<times> nat) list"

definition constructAbstractTagsBased ::
  "OperationContext \<Rightarrow> TagsType list \<Rightarrow> Error + AbstractTagsBasedSplitPolicy" where
  "constructAbstractTagsBased opCtx tagList =
     (case buildTagsToShardIdsMap opCtx tagList of
        Inl e \<Rightarrow> Inl e
      | Inr m \<Rightarrow> Inr \<lparr>m_tags = tagList, m_tagToShardIds = m\<rparr>)"

text \<open>
  Modelled from the spec: the constructor of \<^verbatim>\<open>SingleChunkPerTagSplitPolicy\<close> is declared in
  the header. It runs the constructor of the abstract policy; the per-zone round-robin
  counters start empty.
\<close>

definition constructSingleChunkPerTag ::
  "OperationContext \<Rightarrow> TagsType list \<Rightarrow> Error + SingleChunkPerTagSplitPolicy" where
  "constructSingleChunkPerTag opCtx tagList =
     (case buildTagsToShardIdsMap opCtx tagList of
        Inl e \<Rightarrow> Inl e
      | Inr m \<Rightarrow> Inr \<lparr>m_tags = tagList, m_tagToShardIds = m, m_nextShardIndexForZone = []\<rparr>)"

text \<open>
  \<open>buildSplitInfoForTag\<close> of the single-chunk-per-tag policy. \<^verbatim>\<open>_nextShardIndexForZone[tag]++\<close>
  reads the counter (zero when absent) and stores its successor; \<^verbatim>\<open>find(tag)->second\<close> is
  undefined for an absent tag, and so is the remainder by the size of an empty vector.
\<close>

definition singleChunkPerTagBuildSplitInfoForTag ::
  "SingleChunkPerTagSplitPolicy \<Rightarrow> TagsType \<Rightarrow> ShardKeyPattern
     \<Rightarrow> Error + SplitInfo \<times> SingleChunkPerTagSplitPolicy" where
  "singleChunkPerTagBuildSplitInfoForTag policy tag shardKeyPattern =
     (let nextShardIndex =
            (case map_of (m_nextShardIndexForZone policy) (getTag tag) of None \<Rightarrow> 0 | Some n \<Rightarrow> n);
          policy' = policy\<lparr>m_nextShardIndexForZone :=
                      AList.update (getTag tag) (nextShardIndex + 1) (m_nextShardIndexForZone policy)\<rparr>
      in case map_of (m_tagToShardIds policy) (getTag tag) of
           None \<Rightarrow> Inl UndefinedBehaviour
         | Some shardIdsForTag \<Rightarrow>
             if shardIdsForTag = [] then Inl UndefinedBehaviour
             else Inr (\<lparr>splitPointsOf = [],
                        chunkDistributionOf =
                          [(shardIdsForTag ! (nextShardIndex mod length shardIdsForTag), 1)]\<rparr>,
                       policy'))"

text \<open>
  The state of the loop over the tags in \<open>createFirstChunks\<close>: the policy object (which
  \<open>buildSplitInfoForTag\<close> may change), the version, \<open>lastChunkMax\<close>, the counter \<open>indx\<close> of
  the lambda \<open>nextShardIdForHole\<close>, and the chunks.
\<close>

record 'p TagsLoop =
  loopPolicy :: 'p
  loopVersion :: ChunkVersion
  lastChunkMax :: BSONObj
  holeIndx :: nat
  loopChunks :: "ChunkType list"

text \<open>
  A hole chunk: \<^verbatim>\<open>appendChunk(params, min, max, &version, nextShardIdForHole(), &chunks)\<close>.
  The remainder by the size of an empty inventory is undefined.
\<close>

definition appendHoleChunk ::
  "SplitPolicyParams \<Rightarrow> ShardId list \<Rightarrow> BSONObj \<Rightarrow> BSONObj \<Rightarrow> 'p TagsLoop \<Rightarrow> Error + 'p TagsLoop" where
  "appendHoleChunk params shardIds minKey maxKey st =
     (if shardIds = [] then Inl UndefinedBehaviour
      else
        let shardId = shardIds ! (holeIndx st mod length shardIds);
            r = appendChunk params minKey maxKey (loopVersion st) shardId (loopChunks st)
        in Inr (st\<lparr>holeIndx := holeIndx st + 1, loopVersion := fst r, loopChunks := snd r\<rparr>))"

text \<open>
  The inner loop \<^verbatim>\<open>for (i = 0; i < numChunksForShard; ++i, ++splitPointIdx)\<close>, by the number
  of iterations left; its state is \<open>(splitPointIdx, version, chunks)\<close>.
\<close>

fun chunksOnShardLoop ::
  "SplitPolicyParams \<Rightarrow> TagsType \<Rightarrow> BSONObj list \<Rightarrow> ShardId \<Rightarrow> nat
     \<Rightarrow> nat \<times> ChunkVersion \<times> ChunkType list \<Rightarrow> Error + nat \<times> ChunkVersion \<times> ChunkType list" where
  "chunksOnShardLoop params tag sps targetShard 0 st = Inr st"
| "chunksOnShardLoop params tag sps targetShard (Suc n) (splitPointIdx, vers, chunks) =
     (case (if splitPointIdx = 0 then Inr (getMinKey tag)
            else vectorAt sps (splitPointIdx - 1)) of
        Inl e \<Rightarrow> Inl e
      | Inr minKey \<Rightarrow>
          (case (if splitPointIdx = length sps then Inr (getMaxKey tag)
                 else vectorAt sps splitPointIdx) of
             Inl e \<Rightarrow> Inl e
           | Inr maxKey \<Rightarrow>
               let r = appendChunk params minKey maxKey vers targetShard chunks
               in chunksOnShardLoop params tag sps targetShard n
                    (Suc splitPointIdx, fst r, snd r)))"

definition tagChunks ::
  "SplitPolicyParams \<Rightarrow> TagsType \<Rightarrow> SplitInfo \<Rightarrow> ChunkVersion \<times> ChunkType list
     \<Rightarrow> Error + ChunkVersion \<times> ChunkType list" where
  "tagChunks params tag splitInfo st =
     (case forEachM
             (\<lambda>chunksOnShard. chunksOnShardLoop params tag (splitPointsOf splitInfo)
                                 (fst chunksOnShard) (snd chunksOnShard))
             (chunkDistributionOf splitInfo) (0, fst st, snd st) of
        Inl e \<Rightarrow> Inl e
      | Inr r \<Rightarrow> Inr (snd r))"

text \<open>
  The body of the loop over the tags. The virtual \<open>buildSplitInfoForTag\<close> is the parameter
  \<open>build\<close>. The sum of \<^verbatim>\<open>std::accumulate\<close> is a \<^verbatim>\<open>size_t\<close> and may wrap; the size of a
  vector is below its \<^verbatim>\<open>max_size()\<close>, so \<^verbatim>\<open>size() + 1\<close> cannot.
\<close>

definition processTag ::
  "('p \<Rightarrow> TagsType \<Rightarrow> ShardKeyPattern \<Rightarrow> Error + SplitInfo \<times> 'p) \<Rightarrow> SplitPolicyParams
     \<Rightarrow> ShardKeyPattern \<Rightarrow> ShardId list \<Rightarrow> (string, ShardId list) UnorderedMap \<Rightarrow> TagsType
     \<Rightarrow> 'p TagsLoop \<Rightarrow> Error + 'p TagsLoop" where
  "processTag build params shardKeyPattern shardIds tagToShards tag st =
     (case (if woCompare (getMinKey tag) (lastChunkMax st) > 0
            then appendHoleChunk params shardIds (lastChunkMax st) (getMinKey tag) st
            else Inr st) of
        Inl e \<Rightarrow> Inl e
      | Inr st1 \<Rightarrow>
          (case map_of tagToShards (getTag tag) of
             None \<Rightarrow> Inl InvariantFailure
           | Some shards \<Rightarrow>
               if shards = []
               then Inl (UserAssertion (Location 50973) [DStr (getNS tag), DStr (getTag tag)])
               else
                 (case build (loopPolicy st1) tag shardKeyPattern of
                    Inl e \<Rightarrow> Inl e
                  | Inr built \<Rightarrow>
                      if length (splitPointsOf (fst built)) + 1 \<noteq>
                         fold (\<lambda>currentElem runningSum. wrapSizeT (runningSum + snd currentElem))
                           (chunkDistributionOf (fst built)) 0
                      then Inl InvariantFailure
                      else
                        (case tagChunks params tag (fst built) (loopVersion st1, loopChunks st1) of
                           Inl e \<Rightarrow> Inl e
                         | Inr r \<Rightarrow>
                             Inr (st1\<lparr>loopPolicy := snd built, loopVersion := fst r,
                                      loopChunks := snd r, lastChunkMax := getMaxKey tag\<rparr>)))))"

definition tagsBasedCreateFirstChunks ::
  "('p \<Rightarrow> TagsType \<Rightarrow> ShardKeyPattern \<Rightarrow> Error + SplitInfo \<times> 'p)
     \<Rightarrow> TagsType list \<Rightarrow> (string, ShardId list) UnorderedMap \<Rightarrow> 'p
     \<Rightarrow> OperationContext \<Rightarrow> ShardKeyPattern \<Rightarrow> SplitPolicyParams \<Rightarrow> Error + ChunkType list" where
  "tagsBasedCreateFirstChunks build tagList tagToShards policy opCtx shardKeyPattern params =
     (if tagList = [] then Inl InvariantFailure
      else
        let shardIds = getAllShardIdsShuffled opCtx;
            validAfter = clusterTime opCtx
        in case forEachM (processTag build params shardKeyPattern shardIds tagToShards) tagList
                  \<lparr>loopPolicy = policy, loopVersion = initialVersion opCtx validAfter,
                   lastChunkMax = globalMin shardKeyPattern, holeIndx = 0, loopChunks = []\<rparr> of
             Inl e \<Rightarrow> Inl e
           | Inr st \<Rightarrow>
               if woCompare (lastChunkMax st) (globalMax shardKeyPattern) < 0
               then (case appendHoleChunk params shardIds (lastChunkMax st)
                            (globalMax shardKeyPattern) st of
                       Inl e \<Rightarrow> Inl e
                     | Inr st' \<Rightarrow> Inr (loopChunks st'))
               else Inr (loopChunks st))"

section \<open>Pre-splitting hashed zones\<close>

text \<open>The lambda \<open>ceilOfXOverY\<close> on \<^verbatim>\<open>size_t\<close> operands; a zero divisor is undefined.\<close>

definition ceilOfXOverY :: "nat \<Rightarrow> nat \<Rightarrow> Error + nat" where
  "ceilOfXOverY x y =
     (if y = 0 then Inl UndefinedBehaviour
      else Inr (x div y + (if x mod y \<noteq> 0 then 1 else 0)))"

text \<open>
  The body of the loop over the shards of the current tag; its state is
  \<open>(chunkDistribution, numChunksForCurrentTag)\<close>. \<^verbatim>\<open>_numTagsPerShard[shard]\<close> is zero for a
  shard the map does not hold. \<open>numChunksForCurrentTag\<close> is an \<^verbatim>\<open>int\<close>: the sum is computed
  as a \<^verbatim>\<open>size_t\<close> and converted back.
\<close>

definition shardQuota ::
  "PresplitHashedZonesSplitPolicy \<Rightarrow> nat \<Rightarrow> ShardId \<Rightarrow> (ShardId \<times> nat) list \<times> int
     \<Rightarrow> Error + (ShardId \<times> nat) list \<times> int" where
  "shardQuota policy numChunksPerShard shard st =
     (case ceilOfXOverY numChunksPerShard
             (case map_of (m_numTagsPerShard policy) shard of None \<Rightarrow> 0 | Some n \<Rightarrow> n) of
        Inl e \<Rightarrow> Inl e
      | Inr numChunksForCurrentTagOnShard \<Rightarrow>
          Inr (fst st @ [(shard, numChunksForCurrentTagOnShard)],
               intOfSizeT (wrapSizeT (sizeTOfInt (snd st) + numChunksForCurrentTagOnShard))))"

definition presplitBuildSplitInfoForTag ::
  "PresplitHashedZonesSplitPolicy \<Rightarrow> TagsType \<Rightarrow> ShardKeyPattern
     \<Rightarrow> Error + SplitInfo \<times> PresplitHashedZonesSplitPolicy" where
  "presplitBuildSplitInfoForTag policy tag shardKeyPattern =
     (case ceilOfXOverY (m_numInitialChunks policy) (length (m_numTagsPerShard policy)) of
        Inl e \<Rightarrow> Inl e
      | Inr numChunksPerShard \<Rightarrow>
          (case map_of (m_tagToShardIds policy) (getTag tag) of
             None \<Rightarrow> Inl InvariantFailure
           | Some shardsForCurrentTag \<Rightarrow>
               (case forEachM (shardQuota policy numChunksPerShard) shardsForCurrentTag ([], 0) of
                  Inl e \<Rightarrow> Inl e
                | Inr r \<Rightarrow>
                    let prefixBSON =
                          takeWhile (\<lambda>elem. fst elem \<noteq> getHashedField shardKeyPattern) (getMinKey tag)
                    in (case calculateHashedSplitPoints shardKeyPattern prefixBSON (snd r) of
                          Inl e \<Rightarrow> Inl e
                        | Inr sps \<Rightarrow>
                            Inr (\<lparr>splitPointsOf = sps, chunkDistributionOf = fst r\<rparr>, policy)))))"

text \<open>
  Modelled from the spec: \<^verbatim>\<open>BSONObjIterator\<close> is declared outside the planner's source file.
  An iterator is the list of the elements not yet passed, or \<open>None\<close> once it has been moved
  past the end of its object. At the end it reads the end-of-object element (\<open>None\<close> below,
  with an empty field name); reading or moving an iterator that is past the end fails.
\<close>

type_synonym BSONObjIterator = "BSONElement list option"

definition itDeref :: "BSONObjIterator \<Rightarrow> Error + BSONElement option" where
  "itDeref it =
     (case it of
        None \<Rightarrow> Inl UndefinedBehaviour
      | Some [] \<Rightarrow> Inr None
      | Some (e # _) \<Rightarrow> Inr (Some e))"

definition itAdvance :: "BSONObjIterator \<Rightarrow> Error + BSONObjIterator" where
  "itAdvance it =
     (case it of
        None \<Rightarrow> Inl UndefinedBehaviour
      | Some [] \<Rightarrow> Inr None
      | Some (_ # es) \<Rightarrow> Inr (Some es))"

definition fieldNameAt :: "BSONElement list \<Rightarrow> string" where
  "fieldNameAt es = (case es of [] \<Rightarrow> [] | e # _ \<Rightarrow> fst e)"

text \<open>
  The \<^verbatim>\<open>do ... while\<close> loop of \<open>_validate\<close> over the fields before the hashed field, by the
  elements of the lower bound that \<open>startItr\<close> has not passed. It returns the position of
  \<open>startItr\<close> and \<open>isPrefixDifferent\<close>. Started at the end of the lower bound it reads past
  the end.
\<close>

fun validatePrefixLoop ::
  "string \<Rightarrow> string \<Rightarrow> BSONElement list \<Rightarrow> BSONObjIterator \<Rightarrow> bool
     \<Rightarrow> Error + BSONElement list \<times> bool" where
  "validatePrefixLoop zone hashedField [] endItr isPrefixDifferent = Inl UndefinedBehaviour"
| "validatePrefixLoop zone hashedField (e # es) endItr isPrefixDifferent =
     (if \<not> (snd e \<noteq> MinKey \<and> snd e \<noteq> MaxKey)
      then Inl (UserAssertion (Location 31388) [DStr zone])
      else
        (case (if isPrefixDifferent then Inr True
               else (case itDeref endItr of Inl x \<Rightarrow> Inl x | Inr u \<Rightarrow> Inr (Some e \<noteq> u))) of
           Inl x \<Rightarrow> Inl x
         | Inr different \<Rightarrow>
             (case itAdvance endItr of
                Inl x \<Rightarrow> Inl x
              | Inr endItr' \<Rightarrow>
                  if fieldNameAt es \<noteq> hashedField
                  then validatePrefixLoop zone hashedField es endItr' different
                  else Inr (es, different))))"

definition validateTag :: "ShardKeyPattern \<Rightarrow> TagsType \<Rightarrow> Error + unit" where
  "validateTag shardKeyPattern tag =
     (case validatePrefixLoop (getTag tag) (getHashedField shardKeyPattern) (getMinKey tag)
             (Some (getMaxKey tag)) False of
        Inl e \<Rightarrow> Inl e
      | Inr r \<Rightarrow>
          if \<not> snd r then Inl (UserAssertion (Location 31390) [DStr (getTag tag)])
          else if \<not> (case fst r of [] \<Rightarrow> False | e # _ \<Rightarrow> snd e = MinKey)
          then Inl (UserAssertion (Location 31389) [DStr (getTag tag)])
          else if \<not> list_all (\<lambda>e. snd e = MinKey) (fst r)
          then Inl (UserAssertion (Location 31391) [DStr (getTag tag)])
          else Inr ())"

definition validate :: "ShardKeyPattern \<Rightarrow> TagsType list \<Rightarrow> bool \<Rightarrow> Error + unit" where
  "validate shardKeyPattern tagList isCollectionEmpty =
     (if \<not> (isCollectionEmpty \<and> tagList \<noteq> [] \<and> isHashedPattern shardKeyPattern)
      then Inl (UserAssertion (Location 31387) [])
      else if hasHashedPrefix shardKeyPattern
      then
        (if length tagList = 1 \<and>
            woCompare (globalMin shardKeyPattern) (getMinKey (tagList ! 0)) = 0 \<and>
            woCompare (globalMax shardKeyPattern) (getMaxKey (tagList ! 0)) = 0
         then Inr ()
         else Inl (UserAssertion (Location 31412) []))
      else forEachM (\<lambda>tag u. validateTag shardKeyPattern tag) tagList ())"

text \<open>
  The constructor: the abstract policy's constructor, the validation, then the count of
  the zones on each shard. \<^verbatim>\<open>find(tag)->second\<close> is undefined for an absent tag. The counters
  and the size of the map are bounded by the sizes of the vectors read and cannot wrap.
\<close>

definition countTagsOnShards ::
  "(string, ShardId list) UnorderedMap \<Rightarrow> TagsType
     \<Rightarrow> (string, nat) UnorderedMap \<Rightarrow> Error + (string, nat) UnorderedMap" where
  "countTagsOnShards tagsToShards tag numTagsPerShard =
     (case map_of tagsToShards (getTag tag) of
        None \<Rightarrow> Inl UndefinedBehaviour
      | Some shardsForCurrentTag \<Rightarrow>
          Inr (fold (\<lambda>shard m. AList.update shard
                       ((case map_of m shard of None \<Rightarrow> 0 | Some n \<Rightarrow> n) + 1) m)
                 shardsForCurrentTag numTagsPerShard))"

definition constructPresplitHashedZones ::
  "OperationContext \<Rightarrow> ShardKeyPattern \<Rightarrow> TagsType list \<Rightarrow> nat \<Rightarrow> bool
     \<Rightarrow> Error + PresplitHashedZonesSplitPolicy" where
  "constructPresplitHashedZones opCtx shardKeyPattern tagList numInitialChunks isCollectionEmpty =
     (case buildTagsToShardIdsMap opCtx tagList of
        Inl e \<Rightarrow> Inl e
      | Inr tagsToShards \<Rightarrow>
          (case validate shardKeyPattern tagList isCollectionEmpty of
             Inl e \<Rightarrow> Inl e
           | Inr _ \<Rightarrow>
               (case forEachM (countTagsOnShards tagsToShards) tagList [] of
                  Inl e \<Rightarrow> Inl e
                | Inr numTagsPerShard \<Rightarrow>
                    if numTagsPerShard = [] then Inl InvariantFailure
                    else
                      Inr \<lparr>m_tags = tagList, m_tagToShardIds = tagsToShards,
                           m_numInitialChunks =
                             (if numInitialChunks \<noteq> 0 then numInitialChunks
                              else length numTagsPerShard * 2),
                           m_numTagsPerShard = numTagsPerShard\<rparr>)))"

section \<open>The sampling based policy\<close>

text \<open>
  The sample source is a pull-based, finite cursor: the list of the keys it has yet to
  yield. \<open>getNext\<close> yields the next key, or nothing once the source is exhausted.
\<close>

record SamplingBasedSplitPolicy =
  m_samplingNumInitialChunks :: int
  m_zones :: "TagsType list option"
  m_samples :: "BSONObj list"

definition getNext :: "BSONObj list \<Rightarrow> BSONObj option \<times> BSONObj list" where
  "getNext samples = (case samples of [] \<Rightarrow> (None, []) | k # rest \<Rightarrow> (Some k, rest))"

definition constructSamplingBased ::
  "int \<Rightarrow> TagsType list option \<Rightarrow> BSONObj list \<Rightarrow> Error + SamplingBasedSplitPolicy" where
  "constructSamplingBased numInitialChunks zones samples =
     (if \<not> numInitialChunks > 0 then Inl (UserAssertion (Location 4952602) [])
      else if \<not> (zones = None \<or> zones \<noteq> Some [])
      then Inl (UserAssertion (Location 4952604) [])
      else Inr \<lparr>m_samplingNumInitialChunks = numInitialChunks, m_zones = zones,
                 m_samples = samples\<rparr>)"

text \<open>
  \<open>make\<close> builds the sample pipeline through the aggregation engine; the source it
  obtains is the argument \<open>samples\<close>.
\<close>

definition makeSamplingBased ::
  "int \<Rightarrow> TagsType list option \<Rightarrow> int \<Rightarrow> BSONObj list \<Rightarrow> Error + SamplingBasedSplitPolicy" where
  "makeSamplingBased numInitialChunks zones samplesPerChunk samples =
     (if \<not> samplesPerChunk > 0 then Inl (UserAssertion (Location 4952603) [])
      else constructSamplingBased numInitialChunks zones samples)"

text \<open>
  The \<^verbatim>\<open>while (nextKey && nRemaining > 0)\<close> loop of \<open>_appendSplitPointsFromSample\<close>; it
  returns the set and what is left of the source.
\<close>

function appendSplitPointsLoop ::
  "BSONObj option \<Rightarrow> int \<Rightarrow> BSONObj list \<Rightarrow> BSONObj list \<Rightarrow> BSONObj list \<times> BSONObj list" where
  "appendSplitPointsLoop nextKey nRemaining splitPointSet samples =
     (case nextKey of
        None \<Rightarrow> (splitPointSet, samples)
      | Some k \<Rightarrow>
          if nRemaining > 0
          then
            let result = setInsert k splitPointSet
            in appendSplitPointsLoop (fst (getNext samples))
                 (if snd result then nRemaining - 1 else nRemaining)
                 (fst result) (snd (getNext samples))
          else (splitPointSet, samples))"
  by pat_completeness auto
termination
  by (relation "measure (\<lambda>(nextKey, nRemaining, splitPointSet, samples).
        length samples + (case nextKey of None \<Rightarrow> 0 | Some _ \<Rightarrow> 1))")
     (auto simp: getNext_def split: list.splits)

definition appendSplitPointsFromSample ::
  "BSONObj list \<Rightarrow> int \<Rightarrow> BSONObj list \<Rightarrow> BSONObj list \<times> BSONObj list" where
  "appendSplitPointsFromSample splitPointSet nToAppend samples =
     appendSplitPointsLoop (fst (getNext samples)) nToAppend splitPointSet (snd (getNext samples))"

definition extendZones :: "ShardKeyPattern \<Rightarrow> TagsType list option \<Rightarrow> TagsType list option" where
  "extendZones shardKey zones =
     map_option
       (map (\<lambda>zone. zone\<lparr>getMinKey := extendRangeBound shardKey (getMinKey zone) False,
                         getMaxKey := extendRangeBound shardKey (getMaxKey zone) False\<rparr>))
       zones"

text \<open>
  \<open>createFirstSplitPoints\<close> changes the zones and the source of the policy, so the model
  returns the policy with the set. \<^verbatim>\<open>static_cast<size_t>(_numInitialChunks - 1)\<close> and the
  \<^verbatim>\<open>size_t\<close> difference passed as the \<^verbatim>\<open>int\<close> \<open>nToAppend\<close> are written out.
\<close>

definition createFirstSplitPoints ::
  "ShardKeyPattern \<Rightarrow> SamplingBasedSplitPolicy
     \<Rightarrow> Error + BSONObj list \<times> SamplingBasedSplitPolicy" where
  "createFirstSplitPoints shardKey policy =
     (let zones = extendZones shardKey (m_zones policy);
          seed = extractSplitPointsFromZones shardKey zones;
          r = (if length seed < sizeTOfInt (m_samplingNumInitialChunks policy - 1)
               then appendSplitPointsFromSample seed
                      (intOfSizeT (nat ((int (sizeTOfInt (m_samplingNumInitialChunks policy))
                                          - int (length seed) - 1) mod 2 ^ 64)))
                      (m_samples policy)
               else (seed, m_samples policy))
      in if \<not> length (fst r) \<ge> sizeTOfInt (m_samplingNumInitialChunks policy - 1)
         then Inl (UserAssertion (Location 4952606)
                     [DNum (m_samplingNumInitialChunks policy), DNum (int (length (fst r) + 1))])
         else Inr (fst r, policy\<lparr>m_zones := zones, m_samples := snd r\<rparr>))"

text \<open>\<^verbatim>\<open>emplace\<close> adds an entry unless the key is already present.\<close>

definition emplace :: "'k \<Rightarrow> 'v \<Rightarrow> ('k, 'v) UnorderedMap \<Rightarrow> ('k, 'v) UnorderedMap" where
  "emplace k v m = (case map_of m k of None \<Rightarrow> m @ [(k, v)] | Some _ \<Rightarrow> m)"

text \<open>
  The state of the chunk loop of the sampling policy: the chunk distribution, the
  version, the chunks and \<open>lastChunkMax\<close>.
\<close>

record SamplingLoop =
  chunkDistribution :: "(ShardId, nat) UnorderedMap"
  samplingVersion :: ChunkVersion
  samplingChunks :: "ChunkType list"
  samplingLastChunkMax :: BSONObj

definition selectShardAndAppendChunk ::
  "SplitPolicyParams \<Rightarrow> ZoneInfo \<Rightarrow> (string, ShardId list) UnorderedMap \<Rightarrow> BSONObj
     \<Rightarrow> SamplingLoop \<Rightarrow> Error + SamplingLoop" where
  "selectShardAndAppendChunk params zoneInfo zoneToShardMap chunkMax st =
     (case selectBestShard (chunkDistribution st) zoneInfo zoneToShardMap
             \<lparr>getMin = samplingLastChunkMax st, getMax = chunkMax\<rparr> of
        Inl e \<Rightarrow> Inl e
      | Inr bestShard \<Rightarrow>
          let r = appendChunk params (samplingLastChunkMax st) chunkMax (samplingVersion st)
                    bestShard (samplingChunks st)
          in Inr \<lparr>chunkDistribution =
                     AList.update bestShard
                       ((case map_of (chunkDistribution st) bestShard of None \<Rightarrow> 0 | Some n \<Rightarrow> n) + 1)
                       (chunkDistribution st),
                   samplingVersion = fst r, samplingChunks = snd r,
                   samplingLastChunkMax = chunkMax\<rparr>)"

definition zoneRangeOf :: "TagsType \<Rightarrow> ZoneRange" where
  "zoneRangeOf zone = \<lparr>zoneMin = getMinKey zone, zoneMax = getMaxKey zone, zoneName = getTag zone\<rparr>"

definition samplingCreateFirstChunks ::
  "SamplingBasedSplitPolicy \<Rightarrow> OperationContext \<Rightarrow> ShardKeyPattern \<Rightarrow> SplitPolicyParams
     \<Rightarrow> Error + ChunkType list" where
  "samplingCreateFirstChunks policy opCtx shardKey params =
     (case createFirstSplitPoints shardKey policy of
        Inl e \<Rightarrow> Inl e
      | Inr sp \<Rightarrow>
          (case (case m_zones (snd sp) of
                   None \<Rightarrow> Inr ([], [])
                 | Some zones \<Rightarrow>
                     (case buildTagsToShardIdsMap opCtx zones of
                        Inl e \<Rightarrow> Inl e
                      | Inr m \<Rightarrow>
                          (case forEachM (\<lambda>zone zi. addRangeToZone zi (zoneRangeOf zone)) zones [] of
                             Inl e \<Rightarrow> Inl e
                           | Inr zi \<Rightarrow> Inr (m, zi)))) of
             Inl e \<Rightarrow> Inl e
           | Inr zoned \<Rightarrow>
               let allShardIds = getAllShardIdsShuffled opCtx;
                   dist = fold (\<lambda>shard m. emplace shard 0 m) allShardIds [];
                   zoneToShardMap = emplace [] allShardIds (fst zoned);
                   validAfter = clusterTime opCtx
               in (case forEachM (selectShardAndAppendChunk params (snd zoned) zoneToShardMap)
                           (fst sp @ [globalMax shardKey])
                           \<lparr>chunkDistribution = dist,
                            samplingVersion = initialVersion opCtx validAfter,
                            samplingChunks = [],
                            samplingLastChunkMax = globalMin shardKey\<rparr> of
                     Inl e \<Rightarrow> Inl e
                   | Inr st \<Rightarrow> Inr (samplingChunks st))))"

section \<open>The shard distribution policy\<close>

record ShardDistributionSplitPolicy =
  m_shardDistribution :: "ShardKeyRange list"
  m_distributionZones :: "TagsType list option"

definition makeShardDistribution ::
  "ShardKeyRange list \<Rightarrow> TagsType list option \<Rightarrow> Error + ShardDistributionSplitPolicy" where
  "makeShardDistribution shardDistribution zones =
     (if \<not> length shardDistribution > 0 then Inl (UserAssertion (Location 7661501) [])
      else Inr \<lparr>m_shardDistribution = shardDistribution, m_distributionZones = zones\<rparr>)"

text \<open>
  \<open>_appendChunks\<close>: the \<^verbatim>\<open>while\<close> loop over \<open>shardDistributionIdx\<close>; its state is the index,
  the version and the chunks. Dereferencing an unset bound of a shard range is undefined.
\<close>

function appendChunksLoop ::
  "SplitPolicyParams \<Rightarrow> ShardKeyRange list \<Rightarrow> ShardKeyPattern \<Rightarrow> BSONObj
     \<Rightarrow> nat \<times> ChunkVersion \<times> ChunkType list \<Rightarrow> Error + nat \<times> ChunkVersion \<times> ChunkType list" where
  "appendChunksLoop params dist keyPattern splitPoint (shardDistributionIdx, vers, chunks) =
     (if shardDistributionIdx < length dist
      then
        (case rangeMin (dist ! shardDistributionIdx) of
           None \<Rightarrow> Inl UndefinedBehaviour
         | Some rmin \<Rightarrow>
             (case rangeMax (dist ! shardDistributionIdx) of
                None \<Rightarrow> Inl UndefinedBehaviour
              | Some rmax \<Rightarrow>
                  let shardMin = extendRangeBound keyPattern rmin False;
                      shardMax = extendRangeBound keyPattern rmax False;
                      lastMax = (if chunks = [] then globalMin keyPattern
                                 else getMax (getRange (last chunks)))
                  in if shardMin < splitPoint
                     then
                       (if shardMax \<le> splitPoint
                        then
                          let r = appendChunk params lastMax shardMax vers
                                    (rangeShard (dist ! shardDistributionIdx)) chunks
                          in appendChunksLoop params dist keyPattern splitPoint
                               (shardDistributionIdx + 1, fst r, snd r)
                        else
                          let r = appendChunk params lastMax splitPoint vers
                                    (rangeShard (dist ! shardDistributionIdx)) chunks
                          in Inr (shardDistributionIdx, fst r, snd r))
                     else Inr (shardDistributionIdx, vers, chunks)))
      else Inr (shardDistributionIdx, vers, chunks))"
  by pat_completeness auto
termination
  by (relation "measure (\<lambda>(params, dist, keyPattern, splitPoint, idx, vers, chunks).
        length dist - idx)") auto

definition checkChunkMatchesZone ::
  "ZoneInfo \<Rightarrow> (ShardId, string list) UnorderedMap \<Rightarrow> ChunkType \<Rightarrow> unit \<Rightarrow> Error + unit" where
  "checkChunkMatchesZone zoneInfo shardIdToTags chunk u =
     (let zoneFromCmdParameter = getZoneForChunk zoneInfo (getRange chunk)
      in case map_of shardIdToTags (getShard chunk) of
           None \<Rightarrow> Inl (UserAssertion InvalidOptions
                          [DStr (getShard chunk), DStr zoneFromCmdParameter])
         | Some shardTags \<Rightarrow>
             if zoneFromCmdParameter \<in> set shardTags then Inr ()
             else Inl (UserAssertion InvalidOptions
                         [DStr (getShard chunk), DStr zoneFromCmdParameter]))"

definition checkShardsMatchZones ::
  "ShardDistributionSplitPolicy \<Rightarrow> OperationContext \<Rightarrow> ChunkType list \<Rightarrow> TagsType list
     \<Rightarrow> Error + unit" where
  "checkShardsMatchZones policy opCtx chunks zones =
     (case buildShardIdToTagsMap opCtx (m_shardDistribution policy) of
        Inl e \<Rightarrow> Inl e
      | Inr shardIdToTags \<Rightarrow>
          (case forEachM (\<lambda>zone zi. addRangeToZone zi (zoneRangeOf zone)) zones [] of
             Inl e \<Rightarrow> Inl e
           | Inr zoneInfo \<Rightarrow> forEachM (checkChunkMatchesZone zoneInfo shardIdToTags) chunks ()))"

definition shardDistributionCreateFirstChunks ::
  "ShardDistributionSplitPolicy \<Rightarrow> OperationContext \<Rightarrow> ShardKeyPattern \<Rightarrow> SplitPolicyParams
     \<Rightarrow> Error + ChunkType list" where
  "shardDistributionCreateFirstChunks policy opCtx shardKeyPattern params =
     (let zones = extendZones shardKeyPattern (m_distributionZones policy);
          splitPointSet = extractSplitPointsFromZones shardKeyPattern zones
      in if m_shardDistribution policy = [] then Inl UndefinedBehaviour
         else if rangeMin (m_shardDistribution policy ! 0) = None
         then Inl (UserAssertion InvalidOptions [])
         else
           let validAfter = clusterTime opCtx
           in (case forEachM
                       (appendChunksLoop params (m_shardDistribution policy) shardKeyPattern)
                       (splitPointSet @ [globalMax shardKeyPattern])
                       (0, initialVersion opCtx validAfter, []) of
                 Inl e \<Rightarrow> Inl e
               | Inr st \<Rightarrow>
                   (case zones of
                      None \<Rightarrow> Inr (snd (snd st))
                    | Some zs \<Rightarrow>
                        (case checkShardsMatchZones policy opCtx (snd (snd st)) zs of
                           Inl e \<Rightarrow> Inl e
                         | Inr _ \<Rightarrow> Inr (snd (snd st))))))"

section \<open>The policies and the strategy selector\<close>

text \<open>
  The subclasses of \<^verbatim>\<open>InitialSplitPolicy\<close>, each with its data members, and the virtual
  \<open>createFirstChunks\<close>.
\<close>

datatype InitialSplitPolicy =
    SingleChunkOnPrimary
  | SplitPointsBased "BSONObj list" int
  | SingleChunkPerTag SingleChunkPerTagSplitPolicy
  | PresplitHashedZones PresplitHashedZonesSplitPolicy
  | SamplingBased SamplingBasedSplitPolicy
  | ShardDistribution ShardDistributionSplitPolicy

fun createFirstChunks ::
  "InitialSplitPolicy \<Rightarrow> OperationContext \<Rightarrow> ShardKeyPattern \<Rightarrow> SplitPolicyParams
     \<Rightarrow> Error + ChunkType list" where
  "createFirstChunks SingleChunkOnPrimary opCtx shardKeyPattern params =
     singleChunkOnPrimaryCreateFirstChunks opCtx shardKeyPattern params"
| "createFirstChunks (SplitPointsBased sps n) opCtx shardKeyPattern params =
     splitPointsBasedCreateFirstChunks sps n opCtx shardKeyPattern params"
| "createFirstChunks (SingleChunkPerTag policy) opCtx shardKeyPattern params =
     tagsBasedCreateFirstChunks singleChunkPerTagBuildSplitInfoForTag
       (m_tags policy) (m_tagToShardIds policy) policy opCtx shardKeyPattern params"
| "createFirstChunks (PresplitHashedZones policy) opCtx shardKeyPattern params =
     tagsBasedCreateFirstChunks presplitBuildSplitInfoForTag
       (m_tags policy) (m_tagToShardIds policy) policy opCtx shardKeyPattern params"
| "createFirstChunks (SamplingBased policy) opCtx shardKeyPattern params =
     samplingCreateFirstChunks policy opCtx shardKeyPattern params"
| "createFirstChunks (ShardDistribution policy) opCtx shardKeyPattern params =
     shardDistributionCreateFirstChunks policy opCtx shardKeyPattern params"

text \<open>
  Modelled from the spec: the constructor of \<^verbatim>\<open>SplitPointsBasedSplitPolicy\<close> is declared in
  the header. The policy is constructed with
  \<open>calculateHashedSplitPoints(pattern, {}, max(numInitialChunks, 2 * |shards|))\<close> and one
  contiguous chunk per shard.
\<close>

definition constructSplitPointsBased ::
  "ShardKeyPattern \<Rightarrow> nat \<Rightarrow> int \<Rightarrow> Error + InitialSplitPolicy" where
  "constructSplitPointsBased shardKeyPattern numShards numInitialChunks =
     (case calculateHashedSplitPoints shardKeyPattern []
             (max numInitialChunks (2 * int numShards)) of
        Inl e \<Rightarrow> Inl e
      | Inr sps \<Rightarrow> Inr (SplitPointsBased sps 1))"

text \<open>
  \<open>calculateOptimizationStrategy\<close>. \<open>numInitialChunks\<close> is an \<^verbatim>\<open>int64_t\<close>, converted to
  \<^verbatim>\<open>size_t\<close> for the constructor of the pre-split policy.
\<close>

definition calculateOptimizationStrategy ::
  "OperationContext \<Rightarrow> ShardKeyPattern \<Rightarrow> int \<Rightarrow> bool \<Rightarrow> TagsType list \<Rightarrow> nat \<Rightarrow> bool
     \<Rightarrow> Error + InitialSplitPolicy" where
  "calculateOptimizationStrategy opCtx shardKeyPattern numInitialChunks presplitHashedZones
       tagList numShards collectionIsEmpty =
     (if \<not> (numInitialChunks = 0 \<or> (isHashedPattern shardKeyPattern \<and> collectionIsEmpty))
      then Inl (UserAssertion InvalidOptions [])
      else if \<not> (numInitialChunks = 0 \<or> hasHashedPrefix shardKeyPattern \<or> presplitHashedZones)
      then Inl (UserAssertion InvalidOptions [])
      else if presplitHashedZones
      then map_sum id PresplitHashedZones
             (constructPresplitHashedZones opCtx shardKeyPattern tagList
                (sizeTOfInt numInitialChunks) collectionIsEmpty)
      else if tagList = [] \<and> hasHashedPrefix shardKeyPattern \<and> collectionIsEmpty
      then constructSplitPointsBased shardKeyPattern numShards numInitialChunks
      else if tagList \<noteq> []
      then (if collectionIsEmpty
            then map_sum id SingleChunkPerTag (constructSingleChunkPerTag opCtx tagList)
            else Inr SingleChunkOnPrimary)
      else if collectionIsEmpty then Inr SingleChunkOnPrimary
      else Inr SingleChunkOnPrimary)"

section \<open>Example inputs\<close>

definition exampleContext :: OperationContext where
  "exampleContext =
     \<lparr>getAllShardIds = [''S1'', ''S2'', ''S3''],
      shuffle = (\<lambda>ids. ids),
      exhaustiveFindOnConfigShards =
        Inr [Inr \<lparr>getName = ''S1'', getTags = [''ZUS'']\<rparr>,
             Inr \<lparr>getName = ''S2'', getTags = [''ZUS'', ''ZEU'']\<rparr>,
             Inr \<lparr>getName = ''S3'', getTags = []\<rparr>],
      clusterTime = 7,
      genOID = 42\<rparr>"

definition examplePattern :: ShardKeyPattern where
  "examplePattern = [(''c'', Ascending), (''h'', Hashed)]"

definition exampleZones :: "TagsType list" where
  "exampleZones =
     [\<lparr>getNS = ''db.coll'', getTag = ''ZEU'',
       getMinKey = [(''c'', BsonString ''EU''), (''h'', MinKey)],
       getMaxKey = [(''c'', BsonString ''EV''), (''h'', MinKey)]\<rparr>,
      \<lparr>getNS = ''db.coll'', getTag = ''ZUS'',
       getMinKey = [(''c'', BsonString ''US''), (''h'', MinKey)],
       getMaxKey = [(''c'', BsonString ''UT''), (''h'', MinKey)]\<rparr>]"

definition exampleParams :: SplitPolicyParams where
  "exampleParams = \<lparr>collectionUUID = 1, primaryShardId = ''S1''\<rparr>"

text \<open>
  The split points the sampling policy can collect at most: the zone boundaries it is
  seeded with, and every key the sample source holds.
\<close>

definition collectableSplitPoints :: "ShardKeyPattern \<Rightarrow> SamplingBasedSplitPolicy \<Rightarrow> BSONObj set" where
  "collectableSplitPoints shardKey policy =
     set (extractSplitPointsFromZones shardKey (extendZones shardKey (m_zones policy)))
       \<union> set (m_samples policy)"

section \<open>Emitted chunks\<close>

text \<open>
  What a run of the planner emits is a list of calls of \<open>appendChunk\<close>, each with a lower
  bound, an upper bound and a shard. \<open>appendAll\<close> makes the calls of such a list in order,
  \<open>emitted\<close> reads the three back from a chunk, and \<open>chain lo specs hi\<close> says that the bounds
  of the calls lead from \<open>lo\<close> to \<open>hi\<close> without a gap: the first lower bound is \<open>lo\<close>, each
  upper bound is the next lower bound, and the last upper bound is \<open>hi\<close>.
\<close>

type_synonym ChunkSpec = "BSONObj \<times> BSONObj \<times> ShardId"

definition appendSpec ::
  "SplitPolicyParams \<Rightarrow> ChunkSpec \<Rightarrow> ChunkVersion \<times> ChunkType list \<Rightarrow> ChunkVersion \<times> ChunkType list" where
  "appendSpec params spec st =
     appendChunk params (fst spec) (fst (snd spec)) (fst st) (snd (snd spec)) (snd st)"

definition appendAll ::
  "SplitPolicyParams \<Rightarrow> ChunkSpec list \<Rightarrow> ChunkVersion \<times> ChunkType list
     \<Rightarrow> ChunkVersion \<times> ChunkType list" where
  "appendAll params specs st = fold (appendSpec params) specs st"

definition emitted :: "ChunkType \<Rightarrow> ChunkSpec" where
  "emitted c = (getMin (getRange c), getMax (getRange c), getShard c)"

fun chain :: "BSONObj \<Rightarrow> ChunkSpec list \<Rightarrow> BSONObj \<Rightarrow> bool" where
  "chain lo [] hi = (lo = hi)"
| "chain lo (spec # specs) hi = (fst spec = lo \<and> chain (fst (snd spec)) specs hi)"

text \<open>
  The boundaries of the chunks of one zone, or of the whole key space: boundary \<open>0\<close> is the
  lower end, boundary \<open>j\<close> is split point \<open>j - 1\<close>, and the boundary after the last split
  point is the upper end.
\<close>

definition boundaryAt :: "BSONObj \<Rightarrow> BSONObj list \<Rightarrow> BSONObj \<Rightarrow> nat \<Rightarrow> BSONObj" where
  "boundaryAt lo sps hi j =
     (if j = 0 then lo else if j = Suc (length sps) then hi else sps ! (j - 1))"

text \<open>
  The chunk a call of \<open>appendChunk\<close> creates, the version after \<open>k\<close> increments of the minor
  counter, and the chunks that a list of calls creates from a starting version.
\<close>

definition makeChunk :: "SplitPolicyParams \<Rightarrow> ChunkSpec \<Rightarrow> ChunkVersion \<Rightarrow> ChunkType" where
  "makeChunk params spec vers =
     \<lparr>getCollectionUUID = collectionUUID params,
      getRange = \<lparr>getMin = fst spec, getMax = fst (snd spec)\<rparr>,
      getVersion = vers,
      getShard = snd (snd spec),
      getOnCurrentShardSince = Some (timestamp vers),
      getHistory = [\<lparr>historyValidAfter = timestamp vers, historyShard = snd (snd spec)\<rparr>]\<rparr>"

definition bumpMinor :: "ChunkVersion \<Rightarrow> nat \<Rightarrow> ChunkVersion" where
  "bumpMinor v k = v\<lparr>minorVersion := minorVersion v + k\<rparr>"

definition chunksFor :: "SplitPolicyParams \<Rightarrow> ChunkVersion \<Rightarrow> ChunkSpec list \<Rightarrow> ChunkType list" where
  "chunksFor params v specs =
     map (\<lambda>i. makeChunk params (specs ! i) (bumpMinor v i)) [0..<length specs]"

text \<open>The call of \<open>appendChunk\<close> that iteration \<open>i\<close> of \<open>generateShardCollectionInitialChunks\<close> makes.\<close>

definition generateSpec ::
  "ShardKeyPattern \<Rightarrow> BSONObj list \<Rightarrow> ShardId list \<Rightarrow> int \<Rightarrow> nat \<Rightarrow> ChunkSpec" where
  "generateSpec p fsp shards n i =
     (boundaryAt (globalMin p) fsp (globalMax p) i,
      boundaryAt (globalMin p) fsp (globalMax p) (Suc i),
      shards ! ((i div sizeTOfInt n) mod length shards))"

section \<open>The layout of hole chunks, in the words of the specification\<close>

text \<open>
  The driver algorithm of the tags based policies as the specification words it, over the
  zones in order, each paired with the chunks emitted for it. With \<open>lastMax\<close> the upper
  bound of the previous zone (the global minimum at first) and \<open>h\<close> the number of holes
  filled so far: if the zone's lower bound is greater than \<open>lastMax\<close>, one hole chunk
  \<open>[lastMax, z.min)\<close> goes to shard \<open>h\<close> of the shuffled inventory, round-robin, and \<open>h\<close> is
  incremented; then come the zone's chunks. After the last zone, if \<open>lastMax\<close> is less than
  the global maximum, one final hole chunk \<open>[lastMax, globalMax)\<close> goes to shard \<open>h\<close>.
\<close>

fun specHoleLayout ::
  "ShardId list \<Rightarrow> BSONObj \<Rightarrow> nat \<Rightarrow> (TagsType \<times> ChunkSpec list) list \<Rightarrow> BSONObj
     \<Rightarrow> ChunkSpec list" where
  "specHoleLayout allShards lastMax h [] gMax =
     (if lastMax < gMax then [(lastMax, gMax, allShards ! (h mod length allShards))] else [])"
| "specHoleLayout allShards lastMax h (zoned # rest) gMax =
     (if lastMax < getMinKey (fst zoned)
      then (lastMax, getMinKey (fst zoned), allShards ! (h mod length allShards))
             # snd zoned @ specHoleLayout allShards (getMaxKey (fst zoned)) (h + 1) rest gMax
      else snd zoned @ specHoleLayout allShards (getMaxKey (fst zoned)) h rest gMax)"

text \<open>
  The precondition of the tags based policies: the zones are sorted and do not overlap,
  and lie between the global minimum and the global maximum.
\<close>

fun tagsAscendingFrom :: "BSONObj \<Rightarrow> TagsType list \<Rightarrow> BSONObj \<Rightarrow> bool" where
  "tagsAscendingFrom lo [] hi = (lo \<le> hi)"
| "tagsAscendingFrom lo (t # ts) hi = (lo \<le> getMinKey t \<and> tagsAscendingFrom (getMaxKey t) ts hi)"

text \<open>
  The precondition of the shard distribution policy: the shard ranges, their bounds
  extended to the full key, cover the key space from the global minimum to the global
  maximum in ascending order without gaps or overlaps.
\<close>

fun rangesCover :: "ShardKeyPattern \<Rightarrow> BSONObj \<Rightarrow> ShardKeyRange list \<Rightarrow> bool" where
  "rangesCover p lo [] = (lo = globalMax p)"
| "rangesCover p lo (r # rs) =
     (case rangeMin r of
        None \<Rightarrow> False
      | Some rmin \<Rightarrow>
          (case rangeMax r of
             None \<Rightarrow> False
           | Some rmax \<Rightarrow>
               extendRangeBound p rmin False = lo \<and> lo < extendRangeBound p rmax False \<and>
               rangesCover p (extendRangeBound p rmax False) rs))"

text \<open>The preconditions the specification puts on the input of each policy.\<close>

fun preconditionsHold :: "ShardKeyPattern \<Rightarrow> InitialSplitPolicy \<Rightarrow> bool" where
  "preconditionsHold p SingleChunkOnPrimary = True"
| "preconditionsHold p (SplitPointsBased sps n) = True"
| "preconditionsHold p (SingleChunkPerTag policy) =
     tagsAscendingFrom (globalMin p) (m_tags policy) (globalMax p)"
| "preconditionsHold p (PresplitHashedZones policy) =
     tagsAscendingFrom (globalMin p) (m_tags policy) (globalMax p)"
| "preconditionsHold p (SamplingBased policy) = True"
| "preconditionsHold p (ShardDistribution policy) =
     rangesCover p (globalMin p) (m_shardDistribution policy)"

section \<open>An example run\<close>

text \<open>
  A single-chunk-per-tag policy over the example zones, and the layout it produces on the
  example cluster: a hole before the first zone, the zone ZEU, a hole between the zones,
  the zone ZUS, and the last hole up to the global maximum.
\<close>

definition examplePolicy :: InitialSplitPolicy where
  "examplePolicy =
     SingleChunkPerTag
       \<lparr>m_tags = exampleZones,
        m_tagToShardIds = [(''ZEU'', [''S2'']), (''ZUS'', [''S1'', ''S2''])],
        m_nextShardIndexForZone = []\<rparr>"

definition exampleLayout :: "ChunkSpec list" where
  "exampleLayout =
     [([(''c'', MinKey), (''h'', MinKey)], [(''c'', BsonString ''EU''), (''h'', MinKey)], ''S1''),
      ([(''c'', BsonString ''EU''), (''h'', MinKey)], [(''c'', BsonString ''EV''), (''h'', MinKey)], ''S2''),
      ([(''c'', BsonString ''EV''), (''h'', MinKey)], [(''c'', BsonString ''US''), (''h'', MinKey)], ''S2''),
      ([(''c'', BsonString ''US''), (''h'', MinKey)], [(''c'', BsonString ''UT''), (''h'', MinKey)], ''S1''),
      ([(''c'', BsonString ''UT''), (''h'', MinKey)], [(''c'', MaxKey), (''h'', MaxKey)], ''S3'')]"

section \<open>The chunk quota of the zones, in the words of the specification\<close>

text \<open>The ceiling of \<open>x / y\<close> on natural numbers, for a positive \<open>y\<close>.\<close>

definition ceilingOf :: "nat \<Rightarrow> nat \<Rightarrow> nat" where
  "ceilingOf x y = (x + y - 1) div y"

text \<open>\<^verbatim>\<open>_numTagsPerShard[shard]\<close>, and the shards of a zone in the policy's map.\<close>

definition numTagsOn :: "PresplitHashedZonesSplitPolicy \<Rightarrow> ShardId \<Rightarrow> nat" where
  "numTagsOn policy shard =
     (case map_of (m_numTagsPerShard policy) shard of None \<Rightarrow> 0 | Some n \<Rightarrow> n)"

definition shardsOfTag :: "PresplitHashedZonesSplitPolicy \<Rightarrow> TagsType \<Rightarrow> ShardId list" where
  "shardsOfTag policy tag =
     (case map_of (m_tagToShardIds policy) (getTag tag) of None \<Rightarrow> [] | Some shards \<Rightarrow> shards)"

text \<open>
  The specification's quota: each shard of a zone gets
  \<open>ceil(ceil(numInitialChunks / |numTagsPerShard|) / numTagsPerShard[shard])\<close> chunks, and a
  zone gets the quotas of its shards.
\<close>

definition specShardQuota :: "PresplitHashedZonesSplitPolicy \<Rightarrow> ShardId \<Rightarrow> nat" where
  "specShardQuota policy shard =
     ceilingOf (ceilingOf (m_numInitialChunks policy) (length (m_numTagsPerShard policy)))
       (numTagsOn policy shard)"

definition specZoneChunks :: "PresplitHashedZonesSplitPolicy \<Rightarrow> TagsType \<Rightarrow> nat" where
  "specZoneChunks policy tag = sum_list (map (specShardQuota policy) (shardsOfTag policy tag))"

section \<open>The chunks of a zone, in the words of the specification\<close>

text \<open>
  Step 4e of the driver: walk the chunk distribution in order; for each \<open>(shard, count)\<close>
  emit \<open>count\<close> chunks on \<open>shard\<close>, each bounded by the zone's min at the left edge, the
  zone's max at the right edge, and consecutive split points in between. \<open>idx\<close> is the number
  of chunks of the zone emitted so far.
\<close>

fun specZoneLayout :: "TagsType \<Rightarrow> BSONObj list \<Rightarrow> nat \<Rightarrow> (ShardId \<times> nat) list \<Rightarrow> ChunkSpec list" where
  "specZoneLayout z sps idx [] = []"
| "specZoneLayout z sps idx (d # dist) =
     map (\<lambda>i. (boundaryAt (getMinKey z) sps (getMaxKey z) i,
                boundaryAt (getMinKey z) sps (getMaxKey z) (Suc i), fst d)) [idx..<idx + snd d]
     @ specZoneLayout z sps (idx + snd d) dist"

text \<open>
  Step 4c for all the zones: \<open>buildSplitInfoForTag\<close> is invoked once per zone, in order, on
  the policy object the previous invocation left; each zone's chunks are laid out from the
  split points and the chunk distribution returned for it.
\<close>

fun zoneLayouts ::
  "('p \<Rightarrow> TagsType \<Rightarrow> ShardKeyPattern \<Rightarrow> Error + SplitInfo \<times> 'p) \<Rightarrow> ShardKeyPattern \<Rightarrow> 'p
     \<Rightarrow> TagsType list \<Rightarrow> ChunkSpec list list" where
  "zoneLayouts build pat policy [] = []"
| "zoneLayouts build pat policy (z # zs) =
     (case build policy z pat of
        Inl e \<Rightarrow> []
      | Inr built \<Rightarrow>
          specZoneLayout z (splitPointsOf (fst built)) 0 (chunkDistributionOf (fst built))
            # zoneLayouts build pat (snd built) zs)"

section \<open>An example run of the pre-split policy\<close>

text \<open>
  The pre-split policy that the constructor builds for the example zones on the example
  cluster with \<open>numInitialChunks = 0\<close>: two shards carry a zone, so four chunks are asked
  for; and the layout it produces: one chunk for ZEU, three for ZUS, and three holes.
\<close>

definition examplePresplit :: PresplitHashedZonesSplitPolicy where
  "examplePresplit =
     \<lparr>m_tags = exampleZones,
      m_tagToShardIds = [(''ZEU'', [''S2'']), (''ZUS'', [''S1'', ''S2''])],
      m_numInitialChunks = 4,
      m_numTagsPerShard = [(''S2'', 2), (''S1'', 1)]\<rparr>"

definition examplePresplitLayout :: "ChunkSpec list" where
  "examplePresplitLayout =
     [([(''c'', MinKey), (''h'', MinKey)], [(''c'', BsonString ''EU''), (''h'', MinKey)], ''S1''),
      ([(''c'', BsonString ''EU''), (''h'', MinKey)], [(''c'', BsonString ''EV''), (''h'', MinKey)], ''S2''),
      ([(''c'', BsonString ''EV''), (''h'', MinKey)], [(''c'', BsonString ''US''), (''h'', MinKey)], ''S2''),
      ([(''c'', BsonString ''US''), (''h'', MinKey)],
       [(''c'', BsonString ''US''), (''h'', NumberLong (- 3074457345618258602))], ''S1''),
      ([(''c'', BsonString ''US''), (''h'', NumberLong (- 3074457345618258602))],
       [(''c'', BsonString ''US''), (''h'', NumberLong 3074457345618258602)], ''S1''),
      ([(''c'', BsonString ''US''), (''h'', NumberLong 3074457345618258602)],
       [(''c'', BsonString ''UT''), (''h'', MinKey)], ''S2''),
      ([(''c'', BsonString ''UT''), (''h'', MinKey)], [(''c'', MaxKey), (''h'', MaxKey)], ''S3'')]"

text \<open>A single zone that covers the whole key space of the example pattern.\<close>

definition exampleWholeZone :: TagsType where
  "exampleWholeZone =
     \<lparr>getNS = ''db.coll'', getTag = ''ZUS'',
      getMinKey = [(''c'', MinKey), (''h'', MinKey)],
      getMaxKey = [(''c'', MaxKey), (''h'', MaxKey)]\<rparr>"

(*PROPERTIES*)

section \<open>Properties of the hashed split points\<close>

lemma wrapLongLong_id: "- (2 ^ 63) \<le> x \<Longrightarrow> x < 2 ^ 63 \<Longrightarrow> wrapLongLong x = x"
  by (simp add: wrapLongLong_def)

lemma append_less_append: "(xs @ ys < xs @ zs) \<longleftrightarrow> (ys < zs)" for xs :: "'a::linorder list"
  by (induction xs) auto

lemma NumberLong_less: "NumberLong u < NumberLong v \<longleftrightarrow> u < v"
  by (auto simp: less_BSONValue_def less_eq_BSONValue_def)

lemma buildSplitPoint_less: "buildSplitPoint p pre u < buildSplitPoint p pre v \<longleftrightarrow> u < v"
  by (simp add: buildSplitPoint_def append_less_append NumberLong_less)

lemma buildSplitPoint_le: "buildSplitPoint p pre u \<le> buildSplitPoint p pre v \<longleftrightarrow> u \<le> v"
  using buildSplitPoint_less[of p pre v u] by (simp add: not_less[symmetric])

lemma sort_map_buildSplitPoint:
  "sort (map (buildSplitPoint p pre) vs) = map (buildSplitPoint p pre) (sort vs)"
proof (rule properties_for_sort)
  show "mset (map (buildSplitPoint p pre) (sort vs)) = mset (map (buildSplitPoint p pre) vs)"
    by simp
  have "sorted (sort vs)" by simp
  then show "sorted (map (buildSplitPoint p pre) (sort vs))"
    unfolding sorted_map by (rule sorted_wrt_mono_rel[rotated]) (simp add: buildSplitPoint_le)
qed

definition pairValues :: "int \<Rightarrow> int \<Rightarrow> nat \<Rightarrow> int list" where
  "pairValues c I k = concat (map (\<lambda>j. [c + int j * I, - (c + int j * I)]) [0..<k])"

lemma pairValues_Suc: "pairValues c I (Suc k) = [c, - c] @ pairValues (c + I) I k"
proof -
  have l: "[0..<Suc k] = 0 # map Suc [0..<k]"
    by (metis map_Suc_upt upt_conv_Cons zero_less_Suc)
  have eq: "c + int (Suc j) * I = c + I + int j * I" for j
    by (simp add: algebra_simps)
  show ?thesis
    unfolding pairValues_def l by (simp add: comp_def eq del: of_nat_Suc minus_add_distrib)
qed

lemma splitPointsLoop_values:
  assumes "0 \<le> c" "0 \<le> I" "c + int k * I \<le> LLONG_MAX"
  shows "splitPointsLoop p pre I k c acc = acc @ map (buildSplitPoint p pre) (pairValues c I k)"
  using assms
proof (induction k arbitrary: c acc)
  case 0
  then show ?case by (simp add: pairValues_def)
next
  case (Suc k)
  have le: "c + I \<le> LLONG_MAX"
  proof -
    have "int k * I \<ge> 0" using Suc.prems by simp
    moreover have "c + int (Suc k) * I = c + I + int k * I" by (simp add: algebra_simps)
    ultimately show ?thesis using Suc.prems(3) by linarith
  qed
  have w1: "wrapLongLong (c + I) = c + I"
    using Suc.prems le by (intro wrapLongLong_id) (simp_all add: LLONG_MAX_def)
  have cle: "c \<le> LLONG_MAX" using le Suc.prems by simp
  have w2: "wrapLongLong (- c) = - c"
    using Suc.prems cle by (intro wrapLongLong_id) (simp_all add: LLONG_MAX_def)
  have "splitPointsLoop p pre I k (c + I) (acc @ [buildSplitPoint p pre c, buildSplitPoint p pre (- c)])
      = (acc @ [buildSplitPoint p pre c, buildSplitPoint p pre (- c)]) @ map (buildSplitPoint p pre) (pairValues (c + I) I k)"
    using Suc.prems by (intro Suc.IH) (simp_all add: algebra_simps)
  then show ?case
    by (simp add: w1 w2 pairValues_Suc)
qed

lemma pairValues_abs:
  assumes "0 < c" "0 < I" "x \<in> set (pairValues c I k)"
  shows "c \<le> \<bar>x\<bar> \<and> \<bar>x\<bar> < c + int k * I"
proof -
  from assms(3) obtain j where j: "j < k" "x = c + int j * I \<or> x = - (c + int j * I)"
    by (auto simp: pairValues_def)
  have nn: "0 \<le> int j * I" using assms by simp
  have lt: "int j * I < int k * I" using j assms by simp
  have "\<bar>x\<bar> = c + int j * I"
    using j(2) nn assms(1) by (auto simp: abs_if)
  then show ?thesis using nn lt by linarith
qed

lemma pairValues_snoc: "pairValues c I (Suc k) = pairValues c I k @ [c + int k * I, - (c + int k * I)]"
  by (simp add: pairValues_def)

lemma distinct_pairValues:
  assumes "0 < c" "0 < I"
  shows "distinct (pairValues c I k)"
proof (induction k)
  case 0
  then show ?case by (simp add: pairValues_def)
next
  case (Suc k)
  have pos: "0 < c + int k * I" using assms by (simp add: add_pos_nonneg)
  have a: "c + int k * I \<notin> set (pairValues c I k)"
    using pairValues_abs[OF assms, of "c + int k * I" k] pos by auto
  have b: "- (c + int k * I) \<notin> set (pairValues c I k)"
    using pairValues_abs[OF assms, of "- (c + int k * I)" k] pos by auto
  have "c + int k * I \<noteq> - (c + int k * I)" using pos by linarith
  then show ?case using Suc a b by (simp add: pairValues_snoc del: minus_add_distrib)
qed

lemma zero_notin_pairValues: "0 < c \<Longrightarrow> 0 < I \<Longrightarrow> 0 \<notin> set (pairValues c I k)"
  using pairValues_abs[of c I 0 k] by auto

lemma length_pairValues: "length (pairValues c I k) = 2 * k"
  by (induction k) (simp_all add: pairValues_snoc, simp add: pairValues_def)

lemma set_pairValues: "set (pairValues c I k) = (\<Union>j\<in>{0..<k}. {c + int j * I, - (c + int j * I)})"
  by (auto simp: pairValues_def)

lemma pattern_hashed_parts:
  assumes "p = before @ (h, Hashed) # after" "Hashed \<notin> snd ` set before" "h \<notin> fst ` set before"
  shows "isHashedPattern p" "getHashedField p = h" "fieldsAfterHashed p = after"
proof -
  show "isHashedPattern p" using assms(1) by (auto simp: isHashedPattern_def list_ex_iff)
  have "find (\<lambda>f. snd f = Hashed) p = Some (h, Hashed)"
    unfolding assms(1) using assms(2) by (induction before) auto
  then show h: "getHashedField p = h" by (simp add: getHashedField_def)
  have "dropWhile (\<lambda>f. fst f \<noteq> h) p = (h, Hashed) # after"
    unfolding assms(1) using assms(3) by (induction before) auto
  then show "fieldsAfterHashed p = after" by (simp add: fieldsAfterHashed_def h)
qed

lemma interval_bounds:
  assumes "2 \<le> n" "n \<le> INT_MAX"
  shows "0 < LLONG_MAX div n" "n * (LLONG_MAX div n) \<le> LLONG_MAX"
proof -
  have "n \<le> LLONG_MAX" using assms by (simp add: INT_MAX_def LLONG_MAX_def)
  then show "0 < LLONG_MAX div n" using assms(1) by (simp add: pos_imp_zdiv_pos_iff)
  have "LLONG_MAX = n * (LLONG_MAX div n) + LLONG_MAX mod n" by simp
  moreover have "0 \<le> LLONG_MAX mod n" using assms(1) by simp
  ultimately show "n * (LLONG_MAX div n) \<le> LLONG_MAX" by linarith
qed

lemma half_even: "2 \<le> n \<Longrightarrow> even n \<Longrightarrow> 2 * int (nat ((n - 1) div 2)) = n - 2" for n :: int
proof -
  assume a: "2 \<le> n" "even n"
  then have "0 \<le> (n - 1) div 2" by simp
  then have "int (nat ((n - 1) div 2)) = (n - 1) div 2" by simp
  moreover have "2 * ((n - 1) div 2) = n - 2" using a(2) by presburger
  ultimately show ?thesis by simp
qed

lemma half_odd: "2 \<le> n \<Longrightarrow> odd n \<Longrightarrow> 2 * int (nat ((n - 1) div 2)) = n - 1" for n :: int
proof -
  assume a: "2 \<le> n" "odd n"
  then have "0 \<le> (n - 1) div 2" by simp
  then have "int (nat ((n - 1) div 2)) = (n - 1) div 2" by simp
  moreover have "2 * ((n - 1) div 2) = n - 1" using a(2) by presburger
  ultimately show ?thesis by simp
qed

lemma calculateHashedSplitPoints_values:
  assumes "isHashedPattern p" "2 \<le> n" "n \<le> INT_MAX"
  shows "calculateHashedSplitPoints p prefix n =
     Inr (map (buildSplitPoint p prefix)
       (sort ((if even n then [0] else []) @
          pairValues (if even n then (LLONG_MAX div n) * 2 else LLONG_MAX div n)
            ((LLONG_MAX div n) * 2) (nat ((n - 1) div 2)))))"
proof -
  define q where "q = LLONG_MAX div n"
  define k where "k = nat ((n - 1) div 2)"
  have q: "0 < q" "n * q \<le> LLONG_MAX"
    using interval_bounds[OF assms(2,3)] by (simp_all add: q_def)
  have "2 * q \<le> n * q" using assms(2) q(1) by simp
  then have I_le: "q * 2 \<le> LLONG_MAX" using q(2) by simp
  have wI: "wrapLongLong (q * 2) = q * 2"
    using q(1) I_le by (intro wrapLongLong_id) (simp_all add: LLONG_MAX_def)
  have wq: "wrapLongLong q = q"
    using q(1) I_le by (intro wrapLongLong_id) (simp_all add: LLONG_MAX_def)
  show ?thesis
  proof (cases "even n")
    case True
    have "q * 2 + int k * (q * 2) = (2 * int k + 2) * q" by (simp add: algebra_simps)
    also have "\<dots> = n * q" using half_even[OF assms(2) True] by (simp add: k_def)
    finally have bound: "q * 2 + int k * (q * 2) \<le> LLONG_MAX" using q(2) by simp
    have loop: "splitPointsLoop p prefix (q * 2) k (q * 2) [buildSplitPoint p prefix 0]
        = map (buildSplitPoint p prefix) ([0] @ pairValues (q * 2) (q * 2) k)"
      using splitPointsLoop_values[of "q * 2" "q * 2" k p prefix "[buildSplitPoint p prefix 0]"]
        q(1) bound by simp
    have "calculateHashedSplitPoints p prefix n =
        Inr (sort (splitPointsLoop p prefix (q * 2) k (q * 2) [buildSplitPoint p prefix 0]))"
      using True assms
      by (simp add: calculateHashedSplitPoints_def Let_def wI q_def[symmetric] k_def[symmetric])
    also have "\<dots> = Inr (map (buildSplitPoint p prefix) (sort ([0] @ pairValues (q * 2) (q * 2) k)))"
      by (simp only: loop sort_map_buildSplitPoint)
    finally show ?thesis using True by (simp only: q_def k_def if_True)
  next
    case False
    have "q + int k * (q * 2) = (2 * int k + 1) * q" by (simp add: algebra_simps)
    also have "\<dots> = n * q" using half_odd[OF assms(2) False] by (simp add: k_def)
    finally have bound: "q + int k * (q * 2) \<le> LLONG_MAX" using q(2) by simp
    have loop: "splitPointsLoop p prefix (q * 2) k q []
        = map (buildSplitPoint p prefix) ([] @ pairValues q (q * 2) k)"
      using splitPointsLoop_values[of q "q * 2" k p prefix "[]"] q(1) bound by simp
    have nm: "n mod 2 \<noteq> 0" using False by presburger
    have "calculateHashedSplitPoints p prefix n =
        Inr (sort (splitPointsLoop p prefix (q * 2) k q []))"
      using False assms nm
      by (simp add: calculateHashedSplitPoints_def Let_def wI wq q_def[symmetric] k_def[symmetric])
    also have "\<dots> = Inr (map (buildSplitPoint p prefix) (sort ([] @ pairValues q (q * 2) k)))"
      by (simp only: loop sort_map_buildSplitPoint)
    finally show ?thesis using False by (simp only: q_def k_def if_False)
  qed
qed

lemma reindex_pairs:
  "(\<Union>j\<in>{0..<k}. {I + int j * I, - (I + int j * I)}) = (\<Union>j\<in>{1..k}. {int j * I, - (int j * I)})"
proof -
  have s: "{1..k} = Suc ` {0..<k}"
    by (simp add: image_Suc_atLeastLessThan atLeastLessThanSuc_atLeastAtMost)
  have e: "I + int j * I = int (Suc j) * I" for j by (simp add: algebra_simps)
  show ?thesis unfolding s e by blast
qed

text \<open>
  Claim C4. For a pattern whose hashed field \<open>h\<close> is preceded by the fields \<open>before\<close> and
  followed by the fields \<open>after\<close>, and for every \<open>n\<close> of type \<^verbatim>\<open>int\<close> with \<open>1 \<le> n\<close>,
  \<open>calculateHashedSplitPoints\<close> returns \<open>n - 1\<close> split points in strictly ascending order;
  for \<open>n = 1\<close> none; each split point is the prefix, then the hashed field with its value,
  then MinKey for every field after the hashed field. With \<open>interval = (LLONG_MAX / n) * 2\<close>,
  the hashed values are \<open>0\<close> and \<open>\<plusminus>j * interval\<close> for \<open>j = 1 .. (n - 1) / 2\<close> when \<open>n\<close> is
  even, and \<open>\<plusminus>(interval / 2 + j * interval)\<close> for \<open>j = 0 .. (n - 1) / 2 - 1\<close>, without \<open>0\<close>,
  when \<open>n\<close> is odd.
\<close>

theorem calculateHashedSplitPoints_correct:
  assumes "p = before @ (h, Hashed) # after"
    and "Hashed \<notin> snd ` set before" and "h \<notin> fst ` set before"
    and "1 \<le> n" and "n \<le> INT_MAX"
  shows "\<exists>vs. calculateHashedSplitPoints p prefix n =
            Inr (map (\<lambda>v. prefix @ [(h, NumberLong v)] @ map (\<lambda>f. (fst f, MinKey)) after) vs)
       \<and> int (length vs) = n - 1
       \<and> sorted_wrt (<) vs
       \<and> sorted_wrt (<) (map (\<lambda>v. prefix @ [(h, NumberLong v)] @ map (\<lambda>f. (fst f, MinKey)) after) vs)
       \<and> (n = 1 \<longrightarrow> vs = [])
       \<and> (even n \<longrightarrow> set vs = {0} \<union>
            (\<Union>j\<in>{1..nat ((n - 1) div 2)}.
               {int j * ((LLONG_MAX div n) * 2), - (int j * ((LLONG_MAX div n) * 2))}))
       \<and> (odd n \<longrightarrow> 0 \<notin> set vs \<and> set vs =
            (\<Union>j\<in>{0..<nat ((n - 1) div 2)}.
               {((LLONG_MAX div n) * 2) div 2 + int j * ((LLONG_MAX div n) * 2),
                - (((LLONG_MAX div n) * 2) div 2 + int j * ((LLONG_MAX div n) * 2))}))"
proof -
  note parts = pattern_hashed_parts[OF assms(1-3)]
  have build: "buildSplitPoint p prefix =
      (\<lambda>v. prefix @ [(h, NumberLong v)] @ map (\<lambda>f. (fst f, MinKey)) after)"
    by (rule ext) (simp add: buildSplitPoint_def parts)
  show ?thesis
  proof (cases "n = 1")
    case True
    have "calculateHashedSplitPoints p prefix 1 = Inr []"
      using parts(1) by (simp add: calculateHashedSplitPoints_def)
    then show ?thesis using True by (intro exI[of _ "[]"]) simp
  next
    case False
    then have n2: "2 \<le> n" using assms(4) by simp
    define q where "q = LLONG_MAX div n"
    define k where "k = nat ((n - 1) div 2)"
    define c where "c = (if even n then q * 2 else q)"
    define vs0 where "vs0 = (if even n then [0] else []) @ pairValues c (q * 2) k"
    have q: "0 < q" using interval_bounds[OF n2 assms(5)] by (simp add: q_def)
    have c: "0 < c" using q by (simp add: c_def)
    have res: "calculateHashedSplitPoints p prefix n = Inr (map (buildSplitPoint p prefix) (sort vs0))"
      using calculateHashedSplitPoints_values[OF parts(1) n2 assms(5), of prefix]
      by (simp add: vs0_def c_def q_def k_def)
    have len: "int (length (sort vs0)) = n - 1"
    proof (cases "even n")
      case True
      then show ?thesis using half_even[OF n2 True] by (simp add: vs0_def length_pairValues k_def)
    next
      case False
      then show ?thesis using half_odd[OF n2 False] by (simp add: vs0_def length_pairValues k_def)
    qed
    have dist: "distinct vs0"
      using distinct_pairValues[of c "q * 2" k] zero_notin_pairValues[of c "q * 2" k] c q
      by (simp add: vs0_def)
    have strict: "sorted_wrt (<) (sort vs0)"
      using dist by (simp add: strict_sorted_iff)
    have strict': "sorted_wrt (<) (map (buildSplitPoint p prefix) (sort vs0))"
      using strict by (simp add: sorted_wrt_map buildSplitPoint_less)
    have ev: "set (sort vs0) = {0} \<union> (\<Union>j\<in>{1..k}. {int j * (q * 2), - (int j * (q * 2))})"
      if "even n"
    proof -
      have "set (sort vs0) = {0} \<union> set (pairValues (q * 2) (q * 2) k)"
        using that by (simp add: vs0_def c_def set_insort_key)
      then show ?thesis by (simp only: set_pairValues reindex_pairs)
    qed
    have od: "0 \<notin> set (sort vs0) \<and> set (sort vs0) =
        (\<Union>j\<in>{0..<k}. {(q * 2) div 2 + int j * (q * 2), - ((q * 2) div 2 + int j * (q * 2))})"
      if "odd n"
      using that zero_notin_pairValues[of c "q * 2" k] c q
      by (simp add: vs0_def c_def set_pairValues del: minus_add_distrib)
    show ?thesis
      using res len strict strict' ev od False
      unfolding build q_def k_def
      by (intro exI[of _ "sort vs0"]) blast
  qed
qed

theorem calculateHashedSplitPoints_correct_witness:
  "\<exists>vs. calculateHashedSplitPoints [(''c'', Ascending), (''h'', Hashed), (''s'', Ascending)]
            [(''c'', BsonString ''US'')] 4 =
          Inr (map (\<lambda>v. [(''c'', BsonString ''US''), (''h'', NumberLong v), (''s'', MinKey)]) vs)
     \<and> length vs = 3 \<and> sorted_wrt (<) vs
     \<and> set vs = {0, 4611686018427387902, - 4611686018427387902}"
proof -
  obtain vs where
    "calculateHashedSplitPoints ([(''c'', Ascending)] @ (''h'', Hashed) # [(''s'', Ascending)])
        [(''c'', BsonString ''US'')] 4 =
      Inr (map (\<lambda>v. [(''c'', BsonString ''US'')] @ [(''h'', NumberLong v)] @
                 map (\<lambda>f. (fst f, MinKey)) [(''s'', Ascending)]) vs)"
    "int (length vs) = 4 - 1" "sorted_wrt (<) vs"
    "even (4::int) \<longrightarrow> set vs = {0} \<union>
        (\<Union>j\<in>{1..nat ((4 - 1) div 2)}.
           {int j * ((LLONG_MAX div 4) * 2), - (int j * ((LLONG_MAX div 4) * 2))})"
    using calculateHashedSplitPoints_correct[of "[(''c'', Ascending)] @ (''h'', Hashed) # [(''s'', Ascending)]"
        "[(''c'', Ascending)]" "''h''" "[(''s'', Ascending)]" 4 "[(''c'', BsonString ''US'')]"]
    by (auto simp: INT_MAX_def)
  then show ?thesis
    by (intro exI[of _ vs]) (auto simp: LLONG_MAX_def)
qed

section \<open>The strategy selector\<close>

text \<open>
  Claim C6. \<open>calculateOptimizationStrategy\<close> fails with \<open>InvalidOptions\<close> whenever
  \<open>numInitialChunks\<close> is nonzero and the collection is not empty or the shard key has no
  hashed field, and whenever \<open>numInitialChunks\<close> is nonzero, the pattern has no hashed prefix
  and \<open>presplitHashedZones\<close> is false. When neither holds, it constructs the pre-split policy
  if \<open>presplitHashedZones\<close> is set, else the split-points policy if there are no tags, the
  pattern has a hashed prefix and the collection is empty, else the single-chunk-per-tag
  policy if there are tags and the collection is empty, else the single-chunk-on-primary
  policy.
\<close>

theorem calculateOptimizationStrategy_selects:
  "(numInitialChunks \<noteq> 0 \<and> (\<not> collectionIsEmpty \<or> \<not> isHashedPattern shardKeyPattern) \<longrightarrow>
      calculateOptimizationStrategy opCtx shardKeyPattern numInitialChunks presplitHashedZones
        tagList numShards collectionIsEmpty = Inl (UserAssertion InvalidOptions []))
   \<and> (numInitialChunks \<noteq> 0 \<and> \<not> hasHashedPrefix shardKeyPattern \<and> \<not> presplitHashedZones \<longrightarrow>
      calculateOptimizationStrategy opCtx shardKeyPattern numInitialChunks presplitHashedZones
        tagList numShards collectionIsEmpty = Inl (UserAssertion InvalidOptions []))
   \<and> (\<not> (numInitialChunks \<noteq> 0 \<and> (\<not> collectionIsEmpty \<or> \<not> isHashedPattern shardKeyPattern)) \<and>
       \<not> (numInitialChunks \<noteq> 0 \<and> \<not> hasHashedPrefix shardKeyPattern \<and> \<not> presplitHashedZones) \<longrightarrow>
      calculateOptimizationStrategy opCtx shardKeyPattern numInitialChunks presplitHashedZones
        tagList numShards collectionIsEmpty =
        (if presplitHashedZones
         then map_sum id PresplitHashedZones
                (constructPresplitHashedZones opCtx shardKeyPattern tagList
                   (sizeTOfInt numInitialChunks) collectionIsEmpty)
         else if tagList = [] \<and> hasHashedPrefix shardKeyPattern \<and> collectionIsEmpty
         then constructSplitPointsBased shardKeyPattern numShards numInitialChunks
         else if tagList \<noteq> [] \<and> collectionIsEmpty
         then map_sum id SingleChunkPerTag (constructSingleChunkPerTag opCtx tagList)
         else Inr SingleChunkOnPrimary))"
  by (auto simp: calculateOptimizationStrategy_def)

theorem calculateOptimizationStrategy_selects_witness:
  "calculateOptimizationStrategy exampleContext [(''x'', Ascending)] 4 False [] 3 True
     = Inl (UserAssertion InvalidOptions [])
   \<and> calculateOptimizationStrategy exampleContext [(''x'', Ascending), (''h'', Hashed)] 4 False [] 3 True
     = Inl (UserAssertion InvalidOptions [])
   \<and> calculateOptimizationStrategy exampleContext [(''x'', Ascending)] 0 False [] 3 False
     = Inr SingleChunkOnPrimary
   \<and> calculateOptimizationStrategy exampleContext [(''h'', Hashed)] 2 False [] 3 True
     = Inr (SplitPointsBased
              [[(''h'', NumberLong (- 6148914691236517204))],
               [(''h'', NumberLong (- 3074457345618258602))],
               [(''h'', NumberLong 0)],
               [(''h'', NumberLong 3074457345618258602)],
               [(''h'', NumberLong 6148914691236517204)]] 1)"
  using calculateOptimizationStrategy_selects[of 4 True "[(''x'', Ascending)]" exampleContext False "[]" 3]
    calculateOptimizationStrategy_selects[of 4 True "[(''x'', Ascending), (''h'', Hashed)]" exampleContext False "[]" 3]
    calculateOptimizationStrategy_selects[of 0 False "[(''x'', Ascending)]" exampleContext False "[]" 3]
    calculateOptimizationStrategy_selects[of 2 True "[(''h'', Hashed)]" exampleContext False "[]" 3]
  by (simp add: isHashedPattern_def hasHashedPrefix_def constructSplitPointsBased_def
      calculateHashedSplitPoints_def LLONG_MAX_def wrapLongLong_def
      buildSplitPoint_def getHashedField_def fieldsAfterHashed_def less_eq_BSONValue_def
      less_BSONValue_def numeral_2_eq_2 numeral_3_eq_3)

section \<open>The best shard of a zone\<close>

lemma selectBestShardLoop_held:
  assumes "\<forall>s\<in>set shards. \<exists>n. map_of chunkMap s = Some n"
  shows "\<exists>r nr. selectBestShardLoop chunkMap shards (Some (b, nb)) = Inr (Some (r, nr)) \<and>
           ((r = b \<and> nr = nb \<and> (\<forall>s\<in>set shards. nb \<le> the (map_of chunkMap s))) \<or>
            (nr < nb \<and> nr = the (map_of chunkMap r) \<and>
             (\<exists>pre post. shards = pre @ r # post \<and>
                (\<forall>s\<in>set pre. nr < the (map_of chunkMap s)) \<and>
                (\<forall>s\<in>set post. nr \<le> the (map_of chunkMap s)))))"
  using assms
proof (induction shards arbitrary: b nb)
  case Nil
  then show ?case by simp
next
  case (Cons s ss)
  from Cons.prems obtain n where n: "map_of chunkMap s = Some n" by auto
  have rest: "\<forall>s\<in>set ss. \<exists>n. map_of chunkMap s = Some n" using Cons.prems by simp
  show ?case
  proof (cases "n < nb")
    case True
    from Cons.IH[OF rest, of s n] obtain r nr where
      run: "selectBestShardLoop chunkMap ss (Some (s, n)) = Inr (Some (r, nr))" and
      alt: "(r = s \<and> nr = n \<and> (\<forall>x\<in>set ss. n \<le> the (map_of chunkMap x))) \<or>
            (nr < n \<and> nr = the (map_of chunkMap r) \<and>
             (\<exists>pre post. ss = pre @ r # post \<and>
                (\<forall>x\<in>set pre. nr < the (map_of chunkMap x)) \<and>
                (\<forall>x\<in>set post. nr \<le> the (map_of chunkMap x))))"
      by blast
    have step: "selectBestShardLoop chunkMap (s # ss) (Some (b, nb)) = Inr (Some (r, nr))"
      using n True run by simp
    from alt show ?thesis
    proof
      assume a: "r = s \<and> nr = n \<and> (\<forall>x\<in>set ss. n \<le> the (map_of chunkMap x))"
      then have "s # ss = [] @ r # ss \<and> (\<forall>x\<in>set []. nr < the (map_of chunkMap x)) \<and>
          (\<forall>x\<in>set ss. nr \<le> the (map_of chunkMap x))" by simp
      then have "\<exists>pre post. s # ss = pre @ r # post \<and>
          (\<forall>x\<in>set pre. nr < the (map_of chunkMap x)) \<and>
          (\<forall>x\<in>set post. nr \<le> the (map_of chunkMap x))" by blast
      then show ?thesis using step a n True by auto
    next
      assume a: "nr < n \<and> nr = the (map_of chunkMap r) \<and>
             (\<exists>pre post. ss = pre @ r # post \<and>
                (\<forall>x\<in>set pre. nr < the (map_of chunkMap x)) \<and>
                (\<forall>x\<in>set post. nr \<le> the (map_of chunkMap x)))"
      then obtain pre post where pp: "ss = pre @ r # post"
          "\<forall>x\<in>set pre. nr < the (map_of chunkMap x)"
          "\<forall>x\<in>set post. nr \<le> the (map_of chunkMap x)" by blast
      have "s # ss = (s # pre) @ r # post \<and> (\<forall>x\<in>set (s # pre). nr < the (map_of chunkMap x)) \<and>
          (\<forall>x\<in>set post. nr \<le> the (map_of chunkMap x))"
        using pp a n by simp
      then have "\<exists>pre post. s # ss = pre @ r # post \<and>
          (\<forall>x\<in>set pre. nr < the (map_of chunkMap x)) \<and>
          (\<forall>x\<in>set post. nr \<le> the (map_of chunkMap x))" by blast
      then show ?thesis using step a True by auto
    qed
  next
    case False
    from Cons.IH[OF rest, of b nb] obtain r nr where
      run: "selectBestShardLoop chunkMap ss (Some (b, nb)) = Inr (Some (r, nr))" and
      alt: "(r = b \<and> nr = nb \<and> (\<forall>x\<in>set ss. nb \<le> the (map_of chunkMap x))) \<or>
            (nr < nb \<and> nr = the (map_of chunkMap r) \<and>
             (\<exists>pre post. ss = pre @ r # post \<and>
                (\<forall>x\<in>set pre. nr < the (map_of chunkMap x)) \<and>
                (\<forall>x\<in>set post. nr \<le> the (map_of chunkMap x))))"
      by blast
    have step: "selectBestShardLoop chunkMap (s # ss) (Some (b, nb)) = Inr (Some (r, nr))"
      using n False run by simp
    from alt show ?thesis
    proof
      assume a: "r = b \<and> nr = nb \<and> (\<forall>x\<in>set ss. nb \<le> the (map_of chunkMap x))"
      then show ?thesis using step n False by auto
    next
      assume a: "nr < nb \<and> nr = the (map_of chunkMap r) \<and>
             (\<exists>pre post. ss = pre @ r # post \<and>
                (\<forall>x\<in>set pre. nr < the (map_of chunkMap x)) \<and>
                (\<forall>x\<in>set post. nr \<le> the (map_of chunkMap x)))"
      then obtain pre post where pp: "ss = pre @ r # post"
          "\<forall>x\<in>set pre. nr < the (map_of chunkMap x)"
          "\<forall>x\<in>set post. nr \<le> the (map_of chunkMap x)" by blast
      have "s # ss = (s # pre) @ r # post \<and> (\<forall>x\<in>set (s # pre). nr < the (map_of chunkMap x)) \<and>
          (\<forall>x\<in>set post. nr \<le> the (map_of chunkMap x))"
        using pp a n False by simp
      then have "\<exists>pre post. s # ss = pre @ r # post \<and>
          (\<forall>x\<in>set pre. nr < the (map_of chunkMap x)) \<and>
          (\<forall>x\<in>set post. nr \<le> the (map_of chunkMap x))" by blast
      then show ?thesis using step a by auto
    qed
  qed
qed

lemma selectBestShardLoop_first:
  assumes "shards \<noteq> []" "\<forall>s\<in>set shards. \<exists>n. map_of chunkMap s = Some n"
  shows "\<exists>pre best post. shards = pre @ best # post \<and>
           selectBestShardLoop chunkMap shards None =
             Inr (Some (best, the (map_of chunkMap best))) \<and>
           (\<forall>s\<in>set pre. the (map_of chunkMap best) < the (map_of chunkMap s)) \<and>
           (\<forall>s\<in>set post. the (map_of chunkMap best) \<le> the (map_of chunkMap s))"
proof -
  from assms(1) obtain s ss where sh: "shards = s # ss" by (cases shards) auto
  from assms(2) sh obtain n where n: "map_of chunkMap s = Some n" by auto
  have rest: "\<forall>s\<in>set ss. \<exists>n. map_of chunkMap s = Some n" using assms(2) sh by simp
  from selectBestShardLoop_held[OF rest, of s n] obtain r nr where
    run: "selectBestShardLoop chunkMap ss (Some (s, n)) = Inr (Some (r, nr))" and
    alt: "(r = s \<and> nr = n \<and> (\<forall>x\<in>set ss. n \<le> the (map_of chunkMap x))) \<or>
          (nr < n \<and> nr = the (map_of chunkMap r) \<and>
           (\<exists>pre post. ss = pre @ r # post \<and>
              (\<forall>x\<in>set pre. nr < the (map_of chunkMap x)) \<and>
              (\<forall>x\<in>set post. nr \<le> the (map_of chunkMap x))))"
    by blast
  have step: "selectBestShardLoop chunkMap shards None = Inr (Some (r, nr))"
    using sh n run by simp
  from alt show ?thesis
  proof
    assume a: "r = s \<and> nr = n \<and> (\<forall>x\<in>set ss. n \<le> the (map_of chunkMap x))"
    have "shards = [] @ s # ss" using sh by simp
    moreover have "selectBestShardLoop chunkMap shards None = Inr (Some (s, the (map_of chunkMap s)))"
      using step a n by simp
    moreover have "\<forall>x\<in>set []. the (map_of chunkMap s) < the (map_of chunkMap x)" by simp
    moreover have "\<forall>x\<in>set ss. the (map_of chunkMap s) \<le> the (map_of chunkMap x)"
      using a n by simp
    ultimately show ?thesis by blast
  next
    assume a: "nr < n \<and> nr = the (map_of chunkMap r) \<and>
           (\<exists>pre post. ss = pre @ r # post \<and>
              (\<forall>x\<in>set pre. nr < the (map_of chunkMap x)) \<and>
              (\<forall>x\<in>set post. nr \<le> the (map_of chunkMap x)))"
    then obtain pre post where pp: "ss = pre @ r # post"
        "\<forall>x\<in>set pre. nr < the (map_of chunkMap x)"
        "\<forall>x\<in>set post. nr \<le> the (map_of chunkMap x)" by blast
    have "shards = (s # pre) @ r # post" using sh pp by simp
    moreover have "selectBestShardLoop chunkMap shards None = Inr (Some (r, the (map_of chunkMap r)))"
      using step a by simp
    moreover have "\<forall>x\<in>set (s # pre). the (map_of chunkMap r) < the (map_of chunkMap x)"
      using pp a n by simp
    moreover have "\<forall>x\<in>set post. the (map_of chunkMap r) \<le> the (map_of chunkMap x)"
      using pp a by simp
    ultimately show ?thesis by blast
  qed
qed

text \<open>
  Claim C8. \<open>selectBestShard\<close> fails with code 4952605 when the zone of the range (the empty
  name for an unzoned range) is absent from \<open>zoneToShards\<close>, and with code 4952607 when the
  zone's shard list is empty. Otherwise, when every shard of the zone has a count in
  \<open>chunkMap\<close>, it returns the shard of the zone's list with the smallest count, and among
  shards of equal count the one that comes first in the list: every shard before it has a
  strictly greater count, every shard after it a count at least as great.
\<close>

theorem selectBestShard_least_loaded:
  "(map_of zoneToShards (getZoneForChunk zoneInfo chunkRange) = None \<longrightarrow>
      selectBestShard chunkMap zoneInfo zoneToShards chunkRange =
        Inl (UserAssertion (Location 4952605) [DStr (getZoneForChunk zoneInfo chunkRange)]))
   \<and> (map_of zoneToShards (getZoneForChunk zoneInfo chunkRange) = Some [] \<longrightarrow>
      selectBestShard chunkMap zoneInfo zoneToShards chunkRange =
        Inl (UserAssertion (Location 4952607) [DStr (getZoneForChunk zoneInfo chunkRange)]))
   \<and> (map_of zoneToShards (getZoneForChunk zoneInfo chunkRange) = Some shards \<and> shards \<noteq> [] \<and>
       (\<forall>s\<in>set shards. s \<in> fst ` set chunkMap) \<longrightarrow>
      (\<exists>pre best post. shards = pre @ best # post \<and>
         selectBestShard chunkMap zoneInfo zoneToShards chunkRange = Inr best \<and>
         (\<forall>s\<in>set pre. the (map_of chunkMap best) < the (map_of chunkMap s)) \<and>
         (\<forall>s\<in>set post. the (map_of chunkMap best) \<le> the (map_of chunkMap s))))"
proof (intro conjI impI)
  show "selectBestShard chunkMap zoneInfo zoneToShards chunkRange =
      Inl (UserAssertion (Location 4952605) [DStr (getZoneForChunk zoneInfo chunkRange)])"
    if "map_of zoneToShards (getZoneForChunk zoneInfo chunkRange) = None"
    using that by (simp add: selectBestShard_def)
  show "selectBestShard chunkMap zoneInfo zoneToShards chunkRange =
      Inl (UserAssertion (Location 4952607) [DStr (getZoneForChunk zoneInfo chunkRange)])"
    if "map_of zoneToShards (getZoneForChunk zoneInfo chunkRange) = Some []"
    using that by (simp add: selectBestShard_def)
  assume a: "map_of zoneToShards (getZoneForChunk zoneInfo chunkRange) = Some shards \<and> shards \<noteq> [] \<and>
       (\<forall>s\<in>set shards. s \<in> fst ` set chunkMap)"
  then have inmap: "\<forall>s\<in>set shards. \<exists>n. map_of chunkMap s = Some n"
    by (metis domD domI dom_map_of_conv_image_fst)
  from selectBestShardLoop_first[OF _ inmap] a obtain pre best post where
    r: "shards = pre @ best # post"
       "selectBestShardLoop chunkMap shards None = Inr (Some (best, the (map_of chunkMap best)))"
       "\<forall>s\<in>set pre. the (map_of chunkMap best) < the (map_of chunkMap s)"
       "\<forall>s\<in>set post. the (map_of chunkMap best) \<le> the (map_of chunkMap s)"
    by blast
  have "selectBestShard chunkMap zoneInfo zoneToShards chunkRange = Inr best"
    using a r(2) by (simp add: selectBestShard_def)
  then show "\<exists>pre best post. shards = pre @ best # post \<and>
         selectBestShard chunkMap zoneInfo zoneToShards chunkRange = Inr best \<and>
         (\<forall>s\<in>set pre. the (map_of chunkMap best) < the (map_of chunkMap s)) \<and>
         (\<forall>s\<in>set post. the (map_of chunkMap best) \<le> the (map_of chunkMap s))"
    using r by blast
qed

theorem selectBestShard_least_loaded_witness:
  "selectBestShard [(''S1'', 2), (''S2'', 1), (''S3'', 1)]
       [\<lparr>zoneMin = [(''x'', NumberLong 0)], zoneMax = [(''x'', NumberLong 10)], zoneName = ''Z''\<rparr>]
       [(''Z'', [''S1'', ''S2'', ''S3'']), ('''', [''S1''])]
       \<lparr>getMin = [(''x'', NumberLong 0)], getMax = [(''x'', NumberLong 5)]\<rparr> = Inr ''S2''
   \<and> selectBestShard [(''S1'', 2)] [] [(''Z'', [''S1''])]
       \<lparr>getMin = [(''x'', NumberLong 0)], getMax = [(''x'', NumberLong 5)]\<rparr>
       = Inl (UserAssertion (Location 4952605) [DStr ''''])
   \<and> selectBestShard [(''S1'', 2)] [] [('''', [])]
       \<lparr>getMin = [(''x'', NumberLong 0)], getMax = [(''x'', NumberLong 5)]\<rparr>
       = Inl (UserAssertion (Location 4952607) [DStr ''''])"
proof -
  let ?cm = "[(''S1'', 2::nat), (''S2'', 1), (''S3'', 1)]"
  let ?zi = "[\<lparr>zoneMin = [(''x'', NumberLong 0)], zoneMax = [(''x'', NumberLong 10)], zoneName = ''Z''\<rparr>]"
  let ?zs = "[(''Z'', [''S1'', ''S2'', ''S3'']), ('''', [''S1''])]"
  let ?r = "\<lparr>getMin = [(''x'', NumberLong 0)], getMax = [(''x'', NumberLong 5)]\<rparr>"
  have z: "getZoneForChunk ?zi ?r = ''Z''"
    by (simp add: getZoneForChunk_def less_eq_BSONValue_def less_BSONValue_def)
  have z0: "getZoneForChunk [] ?r = ''''"
    by (simp add: getZoneForChunk_def)
  from selectBestShard_least_loaded[of ?zs ?zi ?r ?cm "[''S1'', ''S2'', ''S3'']"]
  obtain pre best post where
    r: "[''S1'', ''S2'', ''S3''] = pre @ best # post"
       "selectBestShard ?cm ?zi ?zs ?r = Inr best"
       "\<forall>s\<in>set pre. the (map_of ?cm best) < the (map_of ?cm s)"
       "\<forall>s\<in>set post. the (map_of ?cm best) \<le> the (map_of ?cm s)"
    unfolding z by auto
  have "best = ''S2''"
  proof -
    from r(1) consider "pre = [] \<and> best = ''S1'' \<and> post = [''S2'', ''S3'']"
      | "pre = [''S1''] \<and> best = ''S2'' \<and> post = [''S3'']"
      | "pre = [''S1'', ''S2''] \<and> best = ''S3'' \<and> post = []"
      by (auto simp: Cons_eq_append_conv)
    then show ?thesis using r(3,4) by cases auto
  qed
  then have one: "selectBestShard ?cm ?zi ?zs ?r = Inr ''S2''" using r(2) by simp
  have two: "selectBestShard [(''S1'', 2)] [] [(''Z'', [''S1''])] ?r
       = Inl (UserAssertion (Location 4952605) [DStr ''''])"
    using selectBestShard_least_loaded[of "[(''Z'', [''S1''])]" "[]" ?r "[(''S1'', 2)]" "[]"]
    unfolding z0 by simp
  have three: "selectBestShard [(''S1'', 2)] [] [('''', [])] ?r
       = Inl (UserAssertion (Location 4952607) [DStr ''''])"
    using selectBestShard_least_loaded[of "[('''', [])]" "[]" ?r "[(''S1'', 2)]" "[]"]
    unfolding z0 by simp
  show ?thesis using one two three by simp
qed

section \<open>The map from tags to shards\<close>

lemma map_of_fold_update_tags:
  "map_of (fold (\<lambda>tag m. AList.update (getTag tag) [] m) tagList m0) k =
     (if k \<in> getTag ` set tagList then Some [] else map_of m0 k)"
  by (induction tagList arbitrary: m0) (auto simp: update_conv')

lemma map_of_pushBackShard:
  "map_of (pushBackShard name tag m) k =
     (if k = tag then Some ((case map_of m tag of None \<Rightarrow> [] | Some l \<Rightarrow> l) @ [name])
      else map_of m k)"
  by (simp add: pushBackShard_def update_conv')

lemma map_of_pushBackShard_keeps:
  "map_of m k = Some l \<Longrightarrow> \<exists>l'. map_of (pushBackShard name tag m) k = Some l'"
  by (simp add: map_of_pushBackShard)

lemma map_of_fold_pushBackShard_keeps:
  "map_of m k = Some l \<Longrightarrow> \<exists>l'. map_of (fold (pushBackShard name) ts m) k = Some l'"
proof (induction ts arbitrary: m l)
  case Nil
  then show ?case by simp
next
  case (Cons t ts)
  from map_of_pushBackShard_keeps[OF Cons.prems, of name t]
  obtain l' where "map_of (pushBackShard name t m) k = Some l'" by blast
  from Cons.IH[OF this] show ?case by simp
qed

lemma map_of_fold_pushBackShard_other:
  "k \<notin> set ts \<Longrightarrow> map_of (fold (pushBackShard name) ts m) k = map_of m k"
  by (induction ts arbitrary: m) (auto simp: map_of_pushBackShard)

lemma addShardDoc_simps:
  "addShardDoc (Inl e) m = Inl e"
  "addShardDoc (Inr s) m = Inr (fold (pushBackShard (getName s)) (getTags s) m)"
  by (simp_all add: addShardDoc_def)

lemma forEachM_addShardDoc_keeps:
  "forEachM addShardDoc docs m = Inr m' \<Longrightarrow> map_of m k = Some l \<Longrightarrow> \<exists>l'. map_of m' k = Some l'"
proof (induction docs arbitrary: m l)
  case Nil
  then show ?case by simp
next
  case (Cons d docs)
  from Cons.prems(1) obtain s m1 where d: "d = Inr s"
    and m1: "m1 = fold (pushBackShard (getName s)) (getTags s) m"
    and run: "forEachM addShardDoc docs m1 = Inr m'"
    by (cases d) (auto simp: addShardDoc_simps)
  from map_of_fold_pushBackShard_keeps[OF Cons.prems(2), of "getName s" "getTags s"]
  obtain l1 where "map_of m1 k = Some l1" unfolding m1 by blast
  from Cons.IH[OF run this] show ?case .
qed

lemma forEachM_addShardDoc_other:
  "forEachM addShardDoc docs m = Inr m' \<Longrightarrow>
   \<forall>s. Inr s \<in> set docs \<longrightarrow> k \<notin> set (getTags s) \<Longrightarrow> map_of m' k = map_of m k"
proof (induction docs arbitrary: m)
  case Nil
  then show ?case by simp
next
  case (Cons d docs)
  then show ?case
    by (cases d) (auto simp: addShardDoc_simps map_of_fold_pushBackShard_other)
qed

lemma forEachM_addShardDoc_total:
  "\<forall>d\<in>set docs. \<exists>s. d = Inr s \<Longrightarrow> \<exists>m'. forEachM addShardDoc docs m = Inr m'"
proof (induction docs arbitrary: m)
  case Nil
  then show ?case by simp
next
  case (Cons d docs)
  then show ?case by (auto simp: addShardDoc_simps)
qed

text \<open>
  Claim C10. Called with an empty tag list, \<open>buildTagsToShardIdsMap\<close> returns the empty map
  whatever the shard inventory holds or fails with; so the failure with code 50986 is
  raised for a non-empty tag list only (and it is raised there when the inventory is empty,
  while an inventory of well-formed documents gives a map). When the tag list is non-empty,
  every tag name is a key of the returned map, and a tag that no shard carries is mapped
  to the empty list.
\<close>

theorem buildTagsToShardIdsMap_keys:
  "buildTagsToShardIdsMap opCtx [] = Inr []
   \<and> (buildTagsToShardIdsMap opCtx tagList = Inl (UserAssertion (Location 50986) d) \<longrightarrow>
        tagList \<noteq> [])
   \<and> (tagList \<noteq> [] \<and> exhaustiveFindOnConfigShards opCtx = Inr [] \<longrightarrow>
        buildTagsToShardIdsMap opCtx tagList = Inl (UserAssertion (Location 50986) []))
   \<and> (tagList \<noteq> [] \<and> exhaustiveFindOnConfigShards opCtx = Inr docs \<and> docs \<noteq> [] \<and>
       (\<forall>doc\<in>set docs. \<exists>s. doc = Inr s) \<longrightarrow>
        (\<exists>m. buildTagsToShardIdsMap opCtx tagList = Inr m))
   \<and> (tagList \<noteq> [] \<and> buildTagsToShardIdsMap opCtx tagList = Inr m \<longrightarrow>
        (\<forall>t\<in>set tagList. \<exists>shards. map_of m (getTag t) = Some shards))
   \<and> (tagList \<noteq> [] \<and> buildTagsToShardIdsMap opCtx tagList = Inr m \<and>
       exhaustiveFindOnConfigShards opCtx = Inr docs \<longrightarrow>
        (\<forall>t\<in>set tagList. (\<forall>s. Inr s \<in> set docs \<longrightarrow> getTag t \<notin> set (getTags s)) \<longrightarrow>
           map_of m (getTag t) = Some []))"
proof (intro conjI impI ballI)
  show "buildTagsToShardIdsMap opCtx [] = Inr []"
    by (simp add: buildTagsToShardIdsMap_def)
  show "tagList \<noteq> []" if "buildTagsToShardIdsMap opCtx tagList = Inl (UserAssertion (Location 50986) d)"
    using that by (auto simp: buildTagsToShardIdsMap_def)
  show "buildTagsToShardIdsMap opCtx tagList = Inl (UserAssertion (Location 50986) [])"
    if "tagList \<noteq> [] \<and> exhaustiveFindOnConfigShards opCtx = Inr []"
    using that by (simp add: buildTagsToShardIdsMap_def)
  show "\<exists>m. buildTagsToShardIdsMap opCtx tagList = Inr m"
    if "tagList \<noteq> [] \<and> exhaustiveFindOnConfigShards opCtx = Inr docs \<and> docs \<noteq> [] \<and>
       (\<forall>doc\<in>set docs. \<exists>s. doc = Inr s)"
    using that forEachM_addShardDoc_total[of docs]
    by (simp add: buildTagsToShardIdsMap_def)
  show "\<exists>shards. map_of m (getTag t) = Some shards"
    if a: "tagList \<noteq> [] \<and> buildTagsToShardIdsMap opCtx tagList = Inr m" and t: "t \<in> set tagList" for t
  proof -
    from a obtain shardDocs where
      run: "forEachM addShardDoc shardDocs
              (fold (\<lambda>tag m. AList.update (getTag tag) [] m) tagList []) = Inr m"
      by (auto simp: buildTagsToShardIdsMap_def split: sum.splits if_splits)
    have "map_of (fold (\<lambda>tag m. AList.update (getTag tag) [] m) tagList []) (getTag t) = Some []"
      using t by (simp add: map_of_fold_update_tags)
    from forEachM_addShardDoc_keeps[OF run this] show ?thesis .
  qed
  show "map_of m (getTag t) = Some []"
    if a: "tagList \<noteq> [] \<and> buildTagsToShardIdsMap opCtx tagList = Inr m \<and>
       exhaustiveFindOnConfigShards opCtx = Inr docs" and t: "t \<in> set tagList"
      and none: "\<forall>s. Inr s \<in> set docs \<longrightarrow> getTag t \<notin> set (getTags s)" for t
  proof -
    from a have
      run: "forEachM addShardDoc docs
              (fold (\<lambda>tag m. AList.update (getTag tag) [] m) tagList []) = Inr m"
      by (auto simp: buildTagsToShardIdsMap_def split: sum.splits if_splits)
    have "map_of (fold (\<lambda>tag m. AList.update (getTag tag) [] m) tagList []) (getTag t) = Some []"
      using t by (simp add: map_of_fold_update_tags)
    then show ?thesis using forEachM_addShardDoc_other[OF run none] by simp
  qed
qed

theorem buildTagsToShardIdsMap_keys_witness:
  "buildTagsToShardIdsMap (exampleContext\<lparr>exhaustiveFindOnConfigShards := Inr []\<rparr>) [] = Inr []
   \<and> buildTagsToShardIdsMap (exampleContext\<lparr>exhaustiveFindOnConfigShards := Inr []\<rparr>) exampleZones
       = Inl (UserAssertion (Location 50986) [])
   \<and> buildTagsToShardIdsMap exampleContext
         (exampleZones @ [\<lparr>getNS = ''db.coll'', getTag = ''ZNONE'', getMinKey = [], getMaxKey = []\<rparr>])
       = Inr [(''ZEU'', [''S2'']), (''ZUS'', [''S1'', ''S2'']), (''ZNONE'', [])]
   \<and> (\<exists>shards.
        map_of [(''ZEU'', [''S2'']), (''ZUS'', [''S1'', ''S2'']), (''ZNONE'', [])] ''ZNONE'' = Some shards)"
proof -
  let ?empty = "exampleContext\<lparr>exhaustiveFindOnConfigShards := Inr []\<rparr>"
  let ?tags = "exampleZones @ [\<lparr>getNS = ''db.coll'', getTag = ''ZNONE'', getMinKey = [], getMaxKey = []\<rparr>]"
  have ne: "exampleZones \<noteq> []" by (simp add: exampleZones_def)
  have one: "buildTagsToShardIdsMap ?empty [] = Inr []"
    using buildTagsToShardIdsMap_keys[of ?empty] by simp
  have two: "buildTagsToShardIdsMap ?empty exampleZones = Inl (UserAssertion (Location 50986) [])"
    using buildTagsToShardIdsMap_keys[of ?empty exampleZones] ne by simp
  have three: "buildTagsToShardIdsMap exampleContext ?tags
       = Inr [(''ZEU'', [''S2'']), (''ZUS'', [''S1'', ''S2'']), (''ZNONE'', [])]"
    by (simp add: buildTagsToShardIdsMap_def exampleContext_def exampleZones_def
        addShardDoc_simps pushBackShard_def)
  have "\<forall>t\<in>set ?tags. \<exists>shards.
      map_of [(''ZEU'', [''S2'']), (''ZUS'', [''S1'', ''S2'']), (''ZNONE'', [])] (getTag t) = Some shards"
    using buildTagsToShardIdsMap_keys[where opCtx = exampleContext and tagList = ?tags
        and m = "[(''ZEU'', [''S2'']), (''ZUS'', [''S1'', ''S2'']), (''ZNONE'', [])]"] three
    by blast
  then have four: "\<exists>shards.
      map_of [(''ZEU'', [''S2'']), (''ZUS'', [''S1'', ''S2'']), (''ZNONE'', [])] ''ZNONE'' = Some shards"
    by simp
  show ?thesis using one two three four by simp
qed

section \<open>Loops and ordered sets\<close>

lemma forEachM_invariant:
  assumes "forEachM f xs s = Inr s'" and "P s"
    and "\<And>x s s'. x \<in> set xs \<Longrightarrow> P s \<Longrightarrow> f x s = Inr s' \<Longrightarrow> P s'"
  shows "P s'"
  using assms
proof (induction xs arbitrary: s)
  case Nil
  then show ?case by simp
next
  case (Cons x xs)
  from Cons.prems(1) obtain s1 where s1: "f x s = Inr s1" and run: "forEachM f xs s1 = Inr s'"
    by (auto split: sum.splits)
  have "P s1" using Cons.prems(3)[of x s s1] Cons.prems(2) s1 by simp
  moreover have "\<And>y t t'. y \<in> set xs \<Longrightarrow> P t \<Longrightarrow> f y t = Inr t' \<Longrightarrow> P t'"
    using Cons.prems(3) by (meson list.set_intros(2))
  ultimately show ?case using Cons.IH[OF run] by blast
qed

lemma forEachM_total:
  assumes "P s" and "\<And>x s. x \<in> set xs \<Longrightarrow> P s \<Longrightarrow> \<exists>s'. f x s = Inr s' \<and> P s'"
  shows "\<exists>s'. forEachM f xs s = Inr s'"
  using assms
proof (induction xs arbitrary: s)
  case Nil
  then show ?case by simp
next
  case (Cons x xs)
  from Cons.prems obtain s1 where s1: "f x s = Inr s1" "P s1" by force
  from Cons.IH[OF s1(2)] Cons.prems(2) obtain s' where "forEachM f xs s1 = Inr s'" by force
  then show ?case using s1 by simp
qed

lemma forEachM_append:
  "forEachM f (xs @ ys) s = (case forEachM f xs s of Inl e \<Rightarrow> Inl e | Inr s' \<Rightarrow> forEachM f ys s')"
  by (induction xs arbitrary: s) (auto split: sum.splits)

lemma setInsert_set: "set (fst (setInsert x s)) = insert x (set s)"
  by (induction s) auto

lemma setInsert_sorted: "sorted_wrt (<) s \<Longrightarrow> sorted_wrt (<) (fst (setInsert x s))"
  by (induction s) (auto simp: setInsert_set)

lemma setInsert_inserted: "sorted_wrt (<) s \<Longrightarrow> snd (setInsert x s) \<longleftrightarrow> x \<notin> set s"
  by (induction s) auto

lemma setInsert_length:
  "sorted_wrt (<) s \<Longrightarrow> length (fst (setInsert x s)) = (if x \<in> set s then length s else Suc (length s))"
  by (induction s) auto

lemma fold_setInsert_set:
  "set (fold (\<lambda>x s. fst (setInsert x s)) xs s) = set xs \<union> set s"
  by (induction xs arbitrary: s) (auto simp: setInsert_set)

lemma fold_setInsert_sorted:
  "sorted_wrt (<) s \<Longrightarrow> sorted_wrt (<) (fold (\<lambda>x s. fst (setInsert x s)) xs s)"
  by (induction xs arbitrary: s) (auto simp: setInsert_sorted)

lemma strict_sorted_unique:
  "sorted_wrt (<) xs \<Longrightarrow> sorted_wrt (<) ys \<Longrightarrow> set xs = set ys \<Longrightarrow> xs = ys"
  for xs :: "'a::linorder list"
  by (simp add: strict_sorted_iff sorted_distinct_set_unique)

lemma orderedPts_sort_remdups:
  "fold (\<lambda>x s. fst (setInsert x s)) xs [] = sort (remdups xs)"
proof (rule strict_sorted_unique)
  show "sorted_wrt (<) (fold (\<lambda>x s. fst (setInsert x s)) xs [])"
    by (rule fold_setInsert_sorted) simp
  show "sorted_wrt (<) (sort (remdups xs))"
    by (simp add: strict_sorted_iff)
  show "set (fold (\<lambda>x s. fst (setInsert x s)) xs []) = set (sort (remdups xs))"
    by (simp add: fold_setInsert_set)
qed

section \<open>Split points as a set\<close>

lemma generateChunk_length:
  "generateChunk params p fsp shards n i st = Inr st' \<Longrightarrow> length (snd st') = Suc (length (snd st))"
  by (auto simp: generateChunk_def appendChunk_def Let_def split: if_splits)

lemma forEachM_generateChunk_length:
  "forEachM (generateChunk params p fsp shards n) is st = Inr st' \<Longrightarrow>
   length (snd st') = length (snd st) + length is"
proof (induction "is" arbitrary: st)
  case Nil
  then show ?case by simp
next
  case (Cons i "is")
  from Cons.prems obtain s1 where s1: "generateChunk params p fsp shards n i st = Inr s1"
    and run: "forEachM (generateChunk params p fsp shards n) is s1 = Inr st'"
    by (auto split: sum.splits)
  show ?case using Cons.IH[OF run] generateChunk_length[OF s1] by simp
qed

lemma generateChunk_total:
  "sizeTOfInt n \<noteq> 0 \<Longrightarrow> \<exists>st'. generateChunk params p fsp shards n i st = Inr st'"
  by (simp add: generateChunk_def Let_def)

text \<open>
  Claim C9. \<open>generateShardCollectionInitialChunks\<close> collects the split points into a sorted
  duplicate-free set first: its result for a list of split points is its result for the
  sorted deduplicated list, two lists with the same elements give the same result, a
  returned list of chunks has one chunk more than there are distinct split points, and the
  function returns for every list of split points (given shards and a nonzero
  \<open>numContiguousChunksPerShard\<close>).
\<close>

theorem generateShardCollectionInitialChunks_set:
  "generateShardCollectionInitialChunks opCtx params p validAfter sps shards n =
     generateShardCollectionInitialChunks opCtx params p validAfter (sort (remdups sps)) shards n
   \<and> (set sps = set sps' \<longrightarrow>
        generateShardCollectionInitialChunks opCtx params p validAfter sps shards n =
        generateShardCollectionInitialChunks opCtx params p validAfter sps' shards n)
   \<and> (generateShardCollectionInitialChunks opCtx params p validAfter sps shards n = Inr chunks \<longrightarrow>
        length chunks = card (set sps) + 1)
   \<and> (shards \<noteq> [] \<and> sizeTOfInt n \<noteq> 0 \<longrightarrow>
        (\<exists>cs. generateShardCollectionInitialChunks opCtx params p validAfter sps shards n = Inr cs))"
proof (intro conjI impI)
  have idem: "fold (\<lambda>x s. fst (setInsert x s)) (sort (remdups sps)) [] = sort (remdups sps)"
    by (simp add: orderedPts_sort_remdups remdups_id_iff_distinct distinct_remdups sorted_sort_id)
  show "generateShardCollectionInitialChunks opCtx params p validAfter sps shards n =
     generateShardCollectionInitialChunks opCtx params p validAfter (sort (remdups sps)) shards n"
    unfolding generateShardCollectionInitialChunks_def idem
    by (simp only: orderedPts_sort_remdups)
  show "generateShardCollectionInitialChunks opCtx params p validAfter sps shards n =
        generateShardCollectionInitialChunks opCtx params p validAfter sps' shards n"
    if "set sps = set sps'"
  proof -
    have "sort (remdups sps) = sort (remdups sps')"
      using that by (intro strict_sorted_unique) (simp_all add: strict_sorted_iff)
    then show ?thesis
      unfolding generateShardCollectionInitialChunks_def by (simp only: orderedPts_sort_remdups)
  qed
  show "length chunks = card (set sps) + 1"
    if "generateShardCollectionInitialChunks opCtx params p validAfter sps shards n = Inr chunks"
  proof -
    from that obtain st where
      run: "forEachM (generateChunk params p (sort (remdups sps)) shards n)
              [0..<Suc (length (sort (remdups sps)))] (initialVersion opCtx validAfter, []) = Inr st"
      and c: "chunks = snd st"
      unfolding generateShardCollectionInitialChunks_def orderedPts_sort_remdups Let_def
      by (auto split: if_splits sum.splits)
    have "length (snd st) = Suc (length (sort (remdups sps)))"
      using forEachM_generateChunk_length[OF run] by simp
    then show ?thesis using c by (simp add: length_remdups_card_conv)
  qed
  show "\<exists>cs. generateShardCollectionInitialChunks opCtx params p validAfter sps shards n = Inr cs"
    if a: "shards \<noteq> [] \<and> sizeTOfInt n \<noteq> 0"
  proof -
    have "\<exists>st. forEachM (generateChunk params p (sort (remdups sps)) shards n)
              [0..<Suc (length (sort (remdups sps)))] (initialVersion opCtx validAfter, []) = Inr st"
      by (rule forEachM_total[where P = "\<lambda>_. True"]) (use a generateChunk_total in auto)
    then show ?thesis
      using a unfolding generateShardCollectionInitialChunks_def orderedPts_sort_remdups Let_def
      by auto
  qed
qed

theorem generateShardCollectionInitialChunks_set_witness:
  "generateShardCollectionInitialChunks exampleContext exampleParams [(''x'', Ascending)] 7
       [[(''x'', NumberLong 5)], [(''x'', NumberLong 1)], [(''x'', NumberLong 5)]] [''S1'', ''S2''] 1 =
     generateShardCollectionInitialChunks exampleContext exampleParams [(''x'', Ascending)] 7
       [[(''x'', NumberLong 1)], [(''x'', NumberLong 5)]] [''S1'', ''S2''] 1
   \<and> (\<exists>cs. generateShardCollectionInitialChunks exampleContext exampleParams [(''x'', Ascending)] 7
         [[(''x'', NumberLong 5)], [(''x'', NumberLong 1)], [(''x'', NumberLong 5)]] [''S1'', ''S2''] 1
         = Inr cs \<and> length cs = 3)"
proof -
  let ?sps = "[[(''x'', NumberLong 5)], [(''x'', NumberLong 1)], [(''x'', NumberLong 5)]]"
  note inst = generateShardCollectionInitialChunks_set[of exampleContext exampleParams
      "[(''x'', Ascending)]" 7 ?sps "[''S1'', ''S2'']" 1]
  have srt: "sort (remdups ?sps) = [[(''x'', NumberLong 1)], [(''x'', NumberLong 5)]]"
    by (simp add: less_eq_BSONValue_def less_BSONValue_def)
  have "card (set ?sps) = length (remdups ?sps)" by (rule length_remdups_card_conv[symmetric])
  then have crd: "card (set ?sps) = 2" by simp
  have one: "generateShardCollectionInitialChunks exampleContext exampleParams [(''x'', Ascending)] 7
       ?sps [''S1'', ''S2''] 1 =
     generateShardCollectionInitialChunks exampleContext exampleParams [(''x'', Ascending)] 7
       [[(''x'', NumberLong 1)], [(''x'', NumberLong 5)]] [''S1'', ''S2''] 1"
    using inst srt by simp
  have pre: "[''S1'', ''S2''] \<noteq> [] \<and> sizeTOfInt 1 \<noteq> 0" by (simp add: sizeTOfInt_def)
  from inst pre obtain cs where cs: "generateShardCollectionInitialChunks exampleContext exampleParams
      [(''x'', Ascending)] 7 ?sps [''S1'', ''S2''] 1 = Inr cs"
    by blast
  have "length cs = 3"
    using generateShardCollectionInitialChunks_set[of exampleContext exampleParams
      "[(''x'', Ascending)]" 7 ?sps "[''S1'', ''S2'']" 1 _ cs] cs crd by simp
  then have "\<exists>cs. generateShardCollectionInitialChunks exampleContext exampleParams
      [(''x'', Ascending)] 7 ?sps [''S1'', ''S2''] 1 = Inr cs \<and> length cs = 3"
    using cs by blast
  then show ?thesis using one by blast
qed

section \<open>Split points from samples\<close>

declare appendSplitPointsLoop.simps [simp del]

lemma appendSplitPointsLoop_None:
  "appendSplitPointsLoop None n s samples = (s, samples)"
  by (simp add: appendSplitPointsLoop.simps)

lemma appendSplitPointsLoop_Some:
  "appendSplitPointsLoop (Some k) n s samples =
     (if n > 0
      then appendSplitPointsLoop (fst (getNext samples))
             (if snd (setInsert k s) then n - 1 else n)
             (fst (setInsert k s)) (snd (getNext samples))
      else (s, samples))"
  by (subst appendSplitPointsLoop.simps) (simp add: Let_def)

lemma card_strict_sorted: "sorted_wrt (<) s \<Longrightarrow> card (set s) = length s" for s :: "'a::linorder list"
  by (simp add: strict_sorted_iff distinct_card)

lemma appendSplitPointsLoop_size:
  assumes "sorted_wrt (<) s" "0 \<le> n"
  shows "sorted_wrt (<) (fst (appendSplitPointsLoop (Some k) n s samples)) \<and>
         length (fst (appendSplitPointsLoop (Some k) n s samples)) =
           min (length s + nat n) (card (set s \<union> set (k # samples)))"
  using assms
proof (induction samples arbitrary: k n s)
  case Nil
  have c: "card (set s \<union> {k}) = (if k \<in> set s then length s else Suc (length s))"
    using Nil.prems(1) by (simp add: card_strict_sorted insert_absorb strict_sorted_iff)
  show ?case
  proof (cases "n > 0")
    case True
    then show ?thesis
      using Nil.prems c
      by (simp add: appendSplitPointsLoop_Some getNext_def appendSplitPointsLoop_None
          setInsert_sorted setInsert_length)
  next
    case False
    then show ?thesis
      using Nil.prems c by (simp add: appendSplitPointsLoop_Some)
  qed
next
  case (Cons k' rest)
  show ?case
  proof (cases "n > 0")
    case True
    let ?s1 = "fst (setInsert k s)"
    let ?n1 = "if snd (setInsert k s) then n - 1 else n"
    have s1: "sorted_wrt (<) ?s1" using Cons.prems(1) by (rule setInsert_sorted)
    have n1: "0 \<le> ?n1" using True by simp
    have step: "appendSplitPointsLoop (Some k) n s (k' # rest) =
        appendSplitPointsLoop (Some k') ?n1 ?s1 rest"
      using True by (simp add: appendSplitPointsLoop_Some getNext_def)
    have len: "length ?s1 + nat ?n1 = length s + nat n"
    proof (cases "k \<in> set s")
      case True
      then show ?thesis using Cons.prems(1) by (simp add: setInsert_length setInsert_inserted)
    next
      case False
      have "Suc (nat (n - 1)) = nat n" using \<open>n > 0\<close> by linarith
      then show ?thesis using False Cons.prems(1) by (simp add: setInsert_length setInsert_inserted)
    qed
    have st: "set ?s1 \<union> set (k' # rest) = set s \<union> set (k # k' # rest)"
      by (auto simp: setInsert_set)
    from Cons.IH[OF s1 n1, of k'] show ?thesis
      unfolding step len st by simp
  next
    case False
    have "length s = card (set s)" using Cons.prems(1) by (simp add: card_strict_sorted)
    also have "\<dots> \<le> card (set s \<union> set (k # k' # rest))"
      by (rule card_mono) auto
    finally show ?thesis
      using False Cons.prems by (simp add: appendSplitPointsLoop_Some)
  qed
qed

lemma appendSplitPointsLoop_subset:
  "set (fst (appendSplitPointsLoop (Some k) n s samples)) \<subseteq> set s \<union> set (k # samples)"
proof (induction samples arbitrary: k n s)
  case Nil
  then show ?case
    by (auto simp: appendSplitPointsLoop_Some getNext_def appendSplitPointsLoop_None setInsert_set)
next
  case (Cons k' rest)
  show ?case
  proof (cases "n > 0")
    case True
    have step: "appendSplitPointsLoop (Some k) n s (k' # rest) =
        appendSplitPointsLoop (Some k') (if snd (setInsert k s) then n - 1 else n)
          (fst (setInsert k s)) rest"
      using True by (simp add: appendSplitPointsLoop_Some getNext_def)
    show ?thesis
      unfolding step
      using Cons.IH[of k' "if snd (setInsert k s) then n - 1 else n" "fst (setInsert k s)"]
      by (auto simp: setInsert_set)
  next
    case False
    then show ?thesis by (auto simp: appendSplitPointsLoop_Some)
  qed
qed

lemma appendSplitPointsFromSample_subset:
  "set (fst (appendSplitPointsFromSample s n samples)) \<subseteq> set s \<union> set samples"
proof (cases samples)
  case Nil
  then show ?thesis
    by (simp add: appendSplitPointsFromSample_def getNext_def appendSplitPointsLoop_None)
next
  case (Cons k rest)
  then show ?thesis
    using appendSplitPointsLoop_subset[of k n s rest]
    by (simp add: appendSplitPointsFromSample_def getNext_def)
qed

lemma appendSplitPointsFromSample_size:
  assumes "sorted_wrt (<) s" "0 \<le> n"
  shows "length (fst (appendSplitPointsFromSample s n samples)) =
           min (length s + nat n) (card (set s \<union> set samples))"
proof (cases samples)
  case Nil
  then show ?thesis
    using assms by (simp add: appendSplitPointsFromSample_def getNext_def
        appendSplitPointsLoop_None card_strict_sorted)
next
  case (Cons k rest)
  then show ?thesis
    using appendSplitPointsLoop_size[OF assms, of k rest]
    by (simp add: appendSplitPointsFromSample_def getNext_def)
qed

lemma setErase_sorted: "sorted_wrt (<) s \<Longrightarrow> sorted_wrt (<) (setErase x s)"
  by (simp add: setErase_def removeAll_filter_not_eq sorted_wrt_filter)

lemma fold_zone_bounds_sorted:
  "sorted_wrt (<) s \<Longrightarrow>
   sorted_wrt (<) (fold (\<lambda>zone s. fst (setInsert (getMaxKey zone) (fst (setInsert (getMinKey zone) s)))) zs s)"
  by (induction zs arbitrary: s) (auto simp: setInsert_sorted)

lemma extractSplitPointsFromZones_sorted:
  "sorted_wrt (<) (extractSplitPointsFromZones shardKey zones)"
  by (cases zones) (simp_all add: extractSplitPointsFromZones_def setErase_sorted fold_zone_bounds_sorted)

lemma sizeTOfInt_id: "0 \<le> i \<Longrightarrow> i < 2 ^ 64 \<Longrightarrow> sizeTOfInt i = nat i"
  by (simp add: sizeTOfInt_def)

lemma intOfSizeT_id: "int x < 2 ^ 31 \<Longrightarrow> intOfSizeT x = int x"
  by (simp add: intOfSizeT_def)

lemma createFirstSplitPoints_collected:
  assumes "0 < m_samplingNumInitialChunks policy" "m_samplingNumInitialChunks policy \<le> INT_MAX"
  shows "\<exists>sps rest. sorted_wrt (<) sps \<and>
      set sps \<subseteq> collectableSplitPoints shardKey policy \<and>
      length sps = min (max (length (extractSplitPointsFromZones shardKey
                                (extendZones shardKey (m_zones policy))))
                            (nat (m_samplingNumInitialChunks policy - 1)))
                       (card (collectableSplitPoints shardKey policy)) \<and>
      createFirstSplitPoints shardKey policy =
        (if length sps < nat (m_samplingNumInitialChunks policy - 1)
         then Inl (UserAssertion (Location 4952606)
                [DNum (m_samplingNumInitialChunks policy), DNum (int (length sps + 1))])
         else Inr (sps, policy\<lparr>m_zones := extendZones shardKey (m_zones policy), m_samples := rest\<rparr>))"
proof -
  define N where "N = m_samplingNumInitialChunks policy"
  define seed where "seed = extractSplitPointsFromZones shardKey (extendZones shardKey (m_zones policy))"
  have N: "0 < N" "N < 2 ^ 31" using assms by (simp_all add: N_def INT_MAX_def)
  have c1: "sizeTOfInt (N - 1) = nat (N - 1)" using N by (intro sizeTOfInt_id) simp_all
  have c2: "sizeTOfInt N = nat N" using N by (intro sizeTOfInt_id) simp_all
  have seed: "sorted_wrt (<) seed" by (simp add: seed_def extractSplitPointsFromZones_sorted)
  have S: "collectableSplitPoints shardKey policy = set seed \<union> set (m_samples policy)"
    by (simp add: collectableSplitPoints_def seed_def)
  show ?thesis
  proof (cases "length seed < nat (N - 1)")
    case True
    define k where "k = N - int (length seed) - 1"
    have k: "0 < k" "k < 2 ^ 31" using True N by (simp_all add: k_def)
    have "(int (sizeTOfInt N) - int (length seed) - 1) mod 2 ^ 64 = k"
      using k N by (simp add: c2 k_def)
    then have nTo: "intOfSizeT (nat ((int (sizeTOfInt N) - int (length seed) - 1) mod 2 ^ 64)) = k"
      using k by (simp add: intOfSizeT_id)
    let ?r = "appendSplitPointsFromSample seed k (m_samples policy)"
    have srt: "sorted_wrt (<) (fst ?r)"
    proof (cases "m_samples policy")
      case Nil
      then show ?thesis using seed
        by (simp add: appendSplitPointsFromSample_def getNext_def appendSplitPointsLoop_None)
    next
      case (Cons a rest)
      then show ?thesis
        using appendSplitPointsLoop_size[OF seed, of k a rest] k
        by (simp add: appendSplitPointsFromSample_def getNext_def)
    qed
    have "length seed + nat k = nat (N - 1)" using True k by (simp add: k_def)
    then have len: "length (fst ?r) = min (nat (N - 1)) (card (set seed \<union> set (m_samples policy)))"
      using appendSplitPointsFromSample_size[OF seed, of k "m_samples policy"] k by simp
    have mx: "max (length seed) (nat (N - 1)) = nat (N - 1)" using True by simp
    have run: "createFirstSplitPoints shardKey policy =
        (if length (fst ?r) < nat (N - 1)
         then Inl (UserAssertion (Location 4952606) [DNum N, DNum (int (length (fst ?r) + 1))])
         else Inr (fst ?r, policy\<lparr>m_zones := extendZones shardKey (m_zones policy),
                                      m_samples := snd ?r\<rparr>))"
      unfolding createFirstSplitPoints_def Let_def N_def[symmetric] seed_def[symmetric] c1 nTo
      using True by (simp add: not_less)
    have sub: "set (fst ?r) \<subseteq> set seed \<union> set (m_samples policy)"
      by (rule appendSplitPointsFromSample_subset)
    show ?thesis
      using srt len run sub unfolding N_def[symmetric] seed_def[symmetric] S mx by blast
  next
    case False
    have "length seed = card (set seed)" using seed by (simp add: card_strict_sorted)
    also have "\<dots> \<le> card (set seed \<union> set (m_samples policy))"
      by (rule card_mono) auto
    finally have len: "length seed = min (max (length seed) (nat (N - 1)))
        (card (set seed \<union> set (m_samples policy)))"
      using False by simp
    have run: "createFirstSplitPoints shardKey policy =
        (if length seed < nat (N - 1)
         then Inl (UserAssertion (Location 4952606) [DNum N, DNum (int (length seed + 1))])
         else Inr (seed, policy\<lparr>m_zones := extendZones shardKey (m_zones policy),
                                   m_samples := m_samples policy\<rparr>))"
      unfolding createFirstSplitPoints_def Let_def N_def[symmetric] seed_def[symmetric] c1
      using False by simp
    have sub: "set seed \<subseteq> set seed \<union> set (m_samples policy)" by simp
    show ?thesis
      using seed len run sub unfolding N_def[symmetric] seed_def[symmetric] S by blast
  qed
qed

text \<open>
  Claim C5. For a policy whose \<open>numInitialChunks\<close> is a positive \<^verbatim>\<open>int\<close> (the constructor
  rejects any other), \<open>createFirstSplitPoints\<close> fails exactly when the zone boundaries it is
  seeded with and all the keys of the sample source together hold fewer than
  \<open>numInitialChunks - 1\<close> distinct split points; the failure has code 4952606 and carries
  \<open>numInitialChunks\<close> and the achievable chunk count, the number of split points collected
  plus one. Otherwise it returns an ordered set of at least \<open>numInitialChunks - 1\<close> of those
  split points.
\<close>

theorem createFirstSplitPoints_cardinality:
  assumes "0 < m_samplingNumInitialChunks policy" "m_samplingNumInitialChunks policy \<le> INT_MAX"
  shows "((\<exists>d. createFirstSplitPoints shardKey policy = Inl (UserAssertion (Location 4952606) d)) \<longleftrightarrow>
            card (collectableSplitPoints shardKey policy) < nat (m_samplingNumInitialChunks policy - 1))
       \<and> ((\<exists>e. createFirstSplitPoints shardKey policy = Inl e) \<longleftrightarrow>
            card (collectableSplitPoints shardKey policy) < nat (m_samplingNumInitialChunks policy - 1))
       \<and> (card (collectableSplitPoints shardKey policy) < nat (m_samplingNumInitialChunks policy - 1) \<longrightarrow>
            createFirstSplitPoints shardKey policy =
              Inl (UserAssertion (Location 4952606)
                     [DNum (m_samplingNumInitialChunks policy),
                      DNum (int (card (collectableSplitPoints shardKey policy)) + 1)]))
       \<and> (\<not> card (collectableSplitPoints shardKey policy) < nat (m_samplingNumInitialChunks policy - 1) \<longrightarrow>
            (\<exists>sps policy'. createFirstSplitPoints shardKey policy = Inr (sps, policy') \<and>
               sorted_wrt (<) sps \<and> nat (m_samplingNumInitialChunks policy - 1) \<le> length sps \<and>
               set sps \<subseteq> collectableSplitPoints shardKey policy))"
proof -
  define N where "N = m_samplingNumInitialChunks policy"
  define C where "C = card (collectableSplitPoints shardKey policy)"
  define L where "L = length (extractSplitPointsFromZones shardKey (extendZones shardKey (m_zones policy)))"
  from createFirstSplitPoints_collected[OF assms, of shardKey]
  obtain sps rest where r: "sorted_wrt (<) sps"
    "length sps = min (max L (nat (N - 1))) C"
    "set sps \<subseteq> collectableSplitPoints shardKey policy"
    "createFirstSplitPoints shardKey policy =
        (if length sps < nat (N - 1)
         then Inl (UserAssertion (Location 4952606) [DNum N, DNum (int (length sps + 1))])
         else Inr (sps, policy\<lparr>m_zones := extendZones shardKey (m_zones policy), m_samples := rest\<rparr>))"
    unfolding N_def C_def L_def by blast
  have iff: "length sps < nat (N - 1) \<longleftrightarrow> C < nat (N - 1)"
    using r(2) by auto
  have eq: "C < nat (N - 1) \<Longrightarrow> length sps = C"
    using r(2) by auto
  show ?thesis
    unfolding N_def[symmetric] C_def[symmetric]
    using r(1,3,4) iff eq by (auto split: if_splits)
qed

theorem createFirstSplitPoints_cardinality_witness:
  "createFirstSplitPoints [(''x'', Ascending)]
       \<lparr>m_samplingNumInitialChunks = 10, m_zones = None,
        m_samples = [[(''x'', NumberLong 1)], [(''x'', NumberLong 2)], [(''x'', NumberLong 2)],
                     [(''x'', NumberLong 3)], [(''x'', NumberLong 4)]]\<rparr>
     = Inl (UserAssertion (Location 4952606) [DNum 10, DNum 5])
   \<and> (\<exists>sps policy'. createFirstSplitPoints [(''x'', Ascending)]
       \<lparr>m_samplingNumInitialChunks = 4, m_zones = None,
        m_samples = [[(''x'', NumberLong 1)], [(''x'', NumberLong 2)], [(''x'', NumberLong 2)],
                     [(''x'', NumberLong 3)], [(''x'', NumberLong 4)]]\<rparr> = Inr (sps, policy')
       \<and> 3 \<le> length sps)"
proof -
  let ?samples = "[[(''x'', NumberLong 1)], [(''x'', NumberLong 2)], [(''x'', NumberLong 2)],
                     [(''x'', NumberLong 3)], [(''x'', NumberLong 4)]]"
  let ?p = "\<lambda>n. \<lparr>m_samplingNumInitialChunks = n, m_zones = None, m_samples = ?samples\<rparr>"
  have "card (set ?samples) = length (remdups ?samples)"
    by (rule length_remdups_card_conv[symmetric])
  then have c: "card (collectableSplitPoints [(''x'', Ascending)] (?p n)) = 4" for n
    by (simp add: collectableSplitPoints_def extendZones_def extractSplitPointsFromZones_def)
  have one: "createFirstSplitPoints [(''x'', Ascending)] (?p 10)
      = Inl (UserAssertion (Location 4952606) [DNum 10, DNum 5])"
    using createFirstSplitPoints_cardinality[of "?p 10" "[(''x'', Ascending)]"] c[of 10]
    by (simp add: INT_MAX_def)
  have two: "\<exists>sps policy'. createFirstSplitPoints [(''x'', Ascending)] (?p 4) = Inr (sps, policy')
      \<and> 3 \<le> length sps"
    using createFirstSplitPoints_cardinality[of "?p 4" "[(''x'', Ascending)]"] c[of 4]
    by (simp add: INT_MAX_def) blast
  show ?thesis using one two by blast
qed

section \<open>Runs of appendChunk\<close>

lemma bumpMinor_0: "bumpMinor v 0 = v"
  by (simp add: bumpMinor_def)

lemma bumpMinor_bumpMinor: "bumpMinor (bumpMinor v j) k = bumpMinor v (j + k)"
  by (simp add: bumpMinor_def add.assoc)

lemma incMinor_bumpMinor: "incMinor v = bumpMinor v 1"
  by (simp add: incMinor_def bumpMinor_def)

lemma appendSpec_eq:
  "appendSpec params spec st = (bumpMinor (fst st) 1, snd st @ [makeChunk params spec (fst st)])"
  by (simp add: appendSpec_def appendChunk_def makeChunk_def incMinor_bumpMinor)

lemma appendAll_Nil: "appendAll params [] st = st"
  by (simp add: appendAll_def)

lemma appendAll_Cons:
  "appendAll params (spec # specs) st = appendAll params specs (appendSpec params spec st)"
  by (simp add: appendAll_def)

lemma appendAll_append:
  "appendAll params (xs @ ys) st = appendAll params ys (appendAll params xs st)"
  by (simp add: appendAll_def)

lemma appendChunk_appendAll:
  "appendChunk params a b v s cs = appendAll params [(a, b, s)] (v, cs)"
  by (simp add: appendAll_def appendSpec_def)

lemma chunksFor_Nil: "chunksFor params v [] = []"
  by (simp add: chunksFor_def)

lemma chunksFor_snoc:
  "chunksFor params v (specs @ [spec]) =
     chunksFor params v specs @ [makeChunk params spec (bumpMinor v (length specs))]"
  by (simp add: chunksFor_def nth_append)

lemma appendAll_eq:
  "appendAll params specs st =
     (bumpMinor (fst st) (length specs), snd st @ chunksFor params (fst st) specs)"
proof (induction specs rule: rev_induct)
  case Nil
  then show ?case by (simp add: appendAll_Nil bumpMinor_0 chunksFor_Nil)
next
  case (snoc spec specs)
  have "appendAll params (specs @ [spec]) st = appendSpec params spec (appendAll params specs st)"
    by (simp add: appendAll_append appendAll_Cons appendAll_Nil)
  also have "\<dots> = appendSpec params spec
      (bumpMinor (fst st) (length specs), snd st @ chunksFor params (fst st) specs)"
    by (simp only: snoc.IH)
  also have "\<dots> = (bumpMinor (fst st) (length (specs @ [spec])),
      snd st @ chunksFor params (fst st) (specs @ [spec]))"
    by (simp add: appendSpec_eq bumpMinor_bumpMinor chunksFor_snoc)
  finally show ?case .
qed

lemma length_chunksFor: "length (chunksFor params v specs) = length specs"
  by (simp add: chunksFor_def)

lemma emitted_makeChunk: "emitted (makeChunk params spec v) = spec"
  by (simp add: emitted_def makeChunk_def)

lemma getVersion_makeChunk: "getVersion (makeChunk params spec v) = v"
  by (simp add: makeChunk_def)

lemma map_emitted_chunksFor: "map emitted (chunksFor params v specs) = specs"
  by (simp add: chunksFor_def comp_def emitted_makeChunk map_nth)

lemma map_getVersion_chunksFor:
  "map getVersion (chunksFor params v specs) = map (bumpMinor v) [0..<length specs]"
  by (simp add: chunksFor_def comp_def getVersion_makeChunk)

lemma chain_append:
  "chain lo (xs @ ys) hi \<longleftrightarrow> (\<exists>mid. chain lo xs mid \<and> chain mid ys hi)"
  by (induction xs arbitrary: lo) auto

lemma chain_adjacent:
  "chain lo specs hi \<Longrightarrow> Suc i < length specs \<Longrightarrow> fst (snd (specs ! i)) = fst (specs ! Suc i)"
proof (induction specs arbitrary: lo i)
  case Nil
  then show ?case by simp
next
  case (Cons spec specs)
  show ?case
  proof (cases i)
    case 0
    then show ?thesis using Cons.prems by (cases specs) auto
  next
    case (Suc j)
    then show ?thesis using Cons.prems Cons.IH[of "fst (snd spec)" j] by simp
  qed
qed

lemma chain_ends:
  "chain lo specs hi \<Longrightarrow> specs \<noteq> [] \<Longrightarrow> fst (hd specs) = lo \<and> fst (snd (last specs)) = hi"
  by (induction specs arbitrary: lo) auto

section \<open>What each policy emits\<close>

lemma singleChunkOnPrimary_trace:
  "singleChunkOnPrimaryCreateFirstChunks opCtx p params =
     Inr (chunksFor params (initialVersion opCtx (clusterTime opCtx))
            [(globalMin p, globalMax p, primaryShardId params)])"
  by (simp add: singleChunkOnPrimaryCreateFirstChunks_def appendChunk_appendAll appendAll_eq)

lemma generateChunk_trace:
  assumes "generateChunk params p fsp shards n i st = Inr st'" "i \<le> length fsp"
  shows "st' = appendAll params [generateSpec p fsp shards n i] st"
proof -
  have lo: "(if i = 0 then globalMin p else fsp ! (i - 1)) = boundaryAt (globalMin p) fsp (globalMax p) i"
    using assms(2) by (simp add: boundaryAt_def)
  have hi: "(if i < length fsp then fsp ! i else globalMax p) = boundaryAt (globalMin p) fsp (globalMax p) (Suc i)"
    using assms(2) by (auto simp: boundaryAt_def)
  show ?thesis
    using assms(1) unfolding generateChunk_def Let_def lo hi
    by (auto simp: generateSpec_def appendChunk_appendAll split: if_splits)
qed

lemma forEachM_generateChunk_trace:
  assumes "forEachM (generateChunk params p fsp shards n) is st = Inr st'" "\<forall>i\<in>set is. i \<le> length fsp"
  shows "st' = appendAll params (map (generateSpec p fsp shards n) is) st"
  using assms
proof (induction "is" arbitrary: st)
  case Nil
  then show ?case by (simp add: appendAll_Nil)
next
  case (Cons i "is")
  from Cons.prems(1) obtain s1 where s1: "generateChunk params p fsp shards n i st = Inr s1"
    and run: "forEachM (generateChunk params p fsp shards n) is s1 = Inr st'"
    by (auto split: sum.splits)
  have "s1 = appendAll params [generateSpec p fsp shards n i] st"
    using generateChunk_trace[OF s1] Cons.prems(2) by simp
  then show ?case using Cons.IH[OF run] Cons.prems(2)
    by (simp add: appendAll_Cons appendAll_Nil)
qed

lemma chain_boundaries:
  assumes "k \<le> Suc (length sps)" "j \<le> k"
  shows "chain (boundaryAt lo sps hi j)
           (map (\<lambda>i. (boundaryAt lo sps hi i, boundaryAt lo sps hi (Suc i), f i)) [j..<k])
           (boundaryAt lo sps hi k)"
  using assms
proof (induction "k - j" arbitrary: j)
  case 0
  then show ?case by simp
next
  case (Suc d)
  then have jk: "j < k" by simp
  have "[j..<k] = j # [Suc j..<k]" using jk by (simp add: upt_conv_Cons)
  moreover have "chain (boundaryAt lo sps hi (Suc j))
           (map (\<lambda>i. (boundaryAt lo sps hi i, boundaryAt lo sps hi (Suc i), f i)) [Suc j..<k])
           (boundaryAt lo sps hi k)"
    using Suc.hyps(1)[of "Suc j"] Suc.hyps(2) Suc.prems jk by simp
  ultimately show ?case by simp
qed

lemma boundaryAt_0: "boundaryAt lo sps hi 0 = lo"
  by (simp add: boundaryAt_def)

lemma boundaryAt_last: "boundaryAt lo sps hi (Suc (length sps)) = hi"
  by (simp add: boundaryAt_def)

lemma generate_trace:
  assumes "generateShardCollectionInitialChunks opCtx params p validAfter sps shards n = Inr chunks"
  shows "\<exists>specs. chunks = chunksFor params (initialVersion opCtx validAfter) specs \<and>
           specs \<noteq> [] \<and> chain (globalMin p) specs (globalMax p)"
proof -
  define fsp where "fsp = fold (\<lambda>splitPoint s. fst (setInsert splitPoint s)) sps []"
  from assms obtain st where
    run: "forEachM (generateChunk params p fsp shards n) [0..<Suc (length fsp)]
            (initialVersion opCtx validAfter, []) = Inr st" and c: "chunks = snd st"
    unfolding generateShardCollectionInitialChunks_def Let_def fsp_def[symmetric]
    by (auto split: if_splits sum.splits)
  let ?specs = "map (generateSpec p fsp shards n) [0..<Suc (length fsp)]"
  have "st = appendAll params ?specs (initialVersion opCtx validAfter, [])"
    by (rule forEachM_generateChunk_trace[OF run]) auto
  then have "chunks = chunksFor params (initialVersion opCtx validAfter) ?specs"
    using c by (simp add: appendAll_eq)
  moreover have "chain (globalMin p) ?specs (globalMax p)"
    using chain_boundaries[of "Suc (length fsp)" fsp 0 "globalMin p" "globalMax p"
        "\<lambda>i. shards ! ((i div sizeTOfInt n) mod length shards)"]
    unfolding boundaryAt_0 boundaryAt_last generateSpec_def by simp
  moreover have "?specs \<noteq> []" by simp
  ultimately show ?thesis by blast
qed

lemma woCompare_gt: "woCompare a b > 0 \<longleftrightarrow> b < a"
  by (auto simp: woCompare_def)

lemma woCompare_lt: "woCompare a b < 0 \<longleftrightarrow> a < b"
  by (auto simp: woCompare_def)

lemma vectorAt_Inr: "vectorAt xs i = Inr x \<longleftrightarrow> i < length xs \<and> x = xs ! i"
  by (auto simp: vectorAt_def)

lemma chunksOnShardLoop_trace:
  assumes "chunksOnShardLoop params tag sps shard n (idx, v, cs) = Inr r"
  shows "r = (idx + n,
              appendAll params
                (map (\<lambda>i. (boundaryAt (getMinKey tag) sps (getMaxKey tag) i,
                           boundaryAt (getMinKey tag) sps (getMaxKey tag) (Suc i), shard))
                   [idx..<idx + n]) (v, cs))
         \<and> (n > 0 \<longrightarrow> idx + n \<le> Suc (length sps))"
  using assms
proof (induction n arbitrary: idx v cs)
  case 0
  then show ?case by (simp add: appendAll_Nil)
next
  case (Suc n)
  let ?b = "boundaryAt (getMinKey tag) sps (getMaxKey tag)"
  from Suc.prems obtain minKey maxKey where
    mn: "(if idx = 0 then Inr (getMinKey tag) else vectorAt sps (idx - 1)) = Inr minKey" and
    mx: "(if idx = length sps then Inr (getMaxKey tag) else vectorAt sps idx) = Inr maxKey" and
    run: "chunksOnShardLoop params tag sps shard n
            (Suc idx, appendChunk params minKey maxKey v shard cs) = Inr r"
    by (auto simp: Let_def split: sum.splits)
  have le: "idx \<le> length sps"
    using mx by (auto simp: vectorAt_Inr split: if_splits)
  have mn': "minKey = ?b idx"
    using mn le by (auto simp: vectorAt_Inr boundaryAt_def split: if_splits)
  have mx': "maxKey = ?b (Suc idx)"
    using mx le by (auto simp: vectorAt_Inr boundaryAt_def split: if_splits)
  obtain v1 cs1 where a1: "appendChunk params minKey maxKey v shard cs = (v1, cs1)"
    by (cases "appendChunk params minKey maxKey v shard cs")
  have a1': "(v1, cs1) = appendAll params [(?b idx, ?b (Suc idx), shard)] (v, cs)"
    using a1 by (simp add: appendChunk_appendAll mn' mx')
  from Suc.IH[of "Suc idx" v1 cs1] run a1 have
    r: "r = (Suc idx + n,
              appendAll params (map (\<lambda>i. (?b i, ?b (Suc i), shard)) [Suc idx..<Suc idx + n]) (v1, cs1))"
    and b: "n > 0 \<longrightarrow> Suc idx + n \<le> Suc (length sps)"
    by simp_all
  have up: "[idx..<idx + Suc n] = idx # [Suc idx..<Suc idx + n]"
    by (simp add: upt_conv_Cons)
  have "r = (idx + Suc n,
      appendAll params (map (\<lambda>i. (?b i, ?b (Suc i), shard)) [idx..<idx + Suc n]) (v, cs))"
    unfolding up using r a1' by (simp add: appendAll_Cons appendAll_Nil)
  moreover have "idx + Suc n \<le> Suc (length sps)"
    using b le by (cases n) auto
  ultimately show ?case by simp
qed

lemma chain_boundaries_const:
  assumes "idx + n \<le> Suc (length sps)"
  shows "chain (boundaryAt lo sps hi idx)
           (map (\<lambda>i. (boundaryAt lo sps hi i, boundaryAt lo sps hi (Suc i), shard)) [idx..<idx + n])
           (boundaryAt lo sps hi (idx + n))"
  using chain_boundaries[of "idx + n" sps idx lo hi "\<lambda>_. shard"] assms by simp

lemma forEachM_chunksOnShard_trace:
  assumes "forEachM (\<lambda>chunksOnShard. chunksOnShardLoop params tag sps
                        (fst chunksOnShard) (snd chunksOnShard)) dist (idx, v, cs) = Inr r"
  shows "\<exists>specs. r = (idx + sum_list (map snd dist), appendAll params specs (v, cs)) \<and>
           specs = specZoneLayout tag sps idx dist \<and>
           length specs = sum_list (map snd dist) \<and>
           (sum_list (map snd dist) > 0 \<longrightarrow>
              idx + sum_list (map snd dist) \<le> Suc (length sps) \<and>
              chain (boundaryAt (getMinKey tag) sps (getMaxKey tag) idx) specs
                    (boundaryAt (getMinKey tag) sps (getMaxKey tag) (idx + sum_list (map snd dist))))"
  using assms
proof (induction dist arbitrary: idx v cs)
  case Nil
  then show ?case by (auto simp: appendAll_Nil)
next
  case (Cons d dist)
  let ?b = "boundaryAt (getMinKey tag) sps (getMaxKey tag)"
  let ?f = "\<lambda>chunksOnShard. chunksOnShardLoop params tag sps (fst chunksOnShard) (snd chunksOnShard)"
  let ?s1 = "map (\<lambda>i. (?b i, ?b (Suc i), fst d)) [idx..<idx + snd d]"
  define S where "S = sum_list (map snd dist)"
  define T where "T = sum_list (map snd (d # dist))"
  have T: "T = snd d + S" by (simp add: T_def S_def)
  from Cons.prems obtain r1 where r1: "chunksOnShardLoop params tag sps (fst d) (snd d) (idx, v, cs) = Inr r1"
    and run: "forEachM ?f dist r1 = Inr r"
    by (auto split: sum.splits)
  from chunksOnShardLoop_trace[OF r1] have
    e1: "r1 = (idx + snd d, appendAll params ?s1 (v, cs))" and
    b1: "snd d > 0 \<longrightarrow> idx + snd d \<le> Suc (length sps)"
    by simp_all
  obtain v1 cs1 where vc: "appendAll params ?s1 (v, cs) = (v1, cs1)"
    by (cases "appendAll params ?s1 (v, cs)")
  have run': "forEachM ?f dist (idx + snd d, v1, cs1) = Inr r"
    using run e1 vc by simp
  from Cons.IH[OF run'] obtain s2 where
    e2: "r = (idx + snd d + S, appendAll params s2 (v1, cs1))" and
    x2: "s2 = specZoneLayout tag sps (idx + snd d) dist" and
    l2: "length s2 = S" and
    c2: "S > 0 \<longrightarrow> idx + snd d + S \<le> Suc (length sps) \<and>
              chain (?b (idx + snd d)) s2 (?b (idx + snd d + S))"
    unfolding S_def[symmetric] by blast
  have r: "r = (idx + T, appendAll params (?s1 @ s2) (v, cs))"
    using e2 vc by (simp add: appendAll_append T add.assoc)
  have len: "length (?s1 @ s2) = T"
    using l2 by (simp add: T)
  have ch: "idx + T \<le> Suc (length sps) \<and> chain (?b idx) (?s1 @ s2) (?b (idx + T))"
    if pos: "T > 0"
  proof (cases "S > 0")
    case True
    then have bnd: "idx + snd d + S \<le> Suc (length sps)"
      and c: "chain (?b (idx + snd d)) s2 (?b (idx + snd d + S))"
      using c2 by simp_all
    have "idx + snd d \<le> Suc (length sps)" using bnd by simp
    then have "chain (?b idx) ?s1 (?b (idx + snd d))" by (rule chain_boundaries_const)
    then have "chain (?b idx) (?s1 @ s2) (?b (idx + snd d + S))"
      using c by (subst chain_append) (rule exI[of _ "?b (idx + snd d)"], simp)
    then show ?thesis using bnd by (simp add: T add.assoc)
  next
    case False
    then have z1: "S = 0" by simp
    then have z2: "s2 = []" using l2 by simp
    have "snd d > 0" using pos z1 T by simp
    then have bnd: "idx + snd d \<le> Suc (length sps)" using b1 by simp
    then have "chain (?b idx) ?s1 (?b (idx + snd d))" by (rule chain_boundaries_const)
    then show ?thesis using z1 z2 bnd by (simp add: T)
  qed
  have ex: "?s1 @ s2 = specZoneLayout tag sps idx (d # dist)"
    using x2 by simp
  show ?case unfolding T_def[symmetric] using r len ch ex by (intro exI[of _ "?s1 @ s2"]) simp
qed

lemma wrapped_sum_le:
  "fold (\<lambda>currentElem runningSum. wrapSizeT (runningSum + snd currentElem)) dist a
     \<le> a + sum_list (map snd dist)"
proof (induction dist arbitrary: a)
  case Nil
  then show ?case by simp
next
  case (Cons d dist)
  have "wrapSizeT (a + snd d) \<le> a + snd d" by (simp add: wrapSizeT_def)
  then show ?case using Cons.IH[of "wrapSizeT (a + snd d)"] by simp
qed

lemma tagChunks_trace:
  assumes "tagChunks params tag splitInfo (v, cs) = Inr r"
    and "length (splitPointsOf splitInfo) + 1 =
           fold (\<lambda>currentElem runningSum. wrapSizeT (runningSum + snd currentElem))
             (chunkDistributionOf splitInfo) 0"
  shows "\<exists>specs. r = appendAll params specs (v, cs) \<and> specs \<noteq> [] \<and>
           specs = specZoneLayout tag (splitPointsOf splitInfo) 0 (chunkDistributionOf splitInfo) \<and>
           length specs = sum_list (map snd (chunkDistributionOf splitInfo)) \<and>
           length specs = Suc (length (splitPointsOf splitInfo)) \<and>
           chain (getMinKey tag) specs (getMaxKey tag)"
proof -
  let ?sps = "splitPointsOf splitInfo"
  let ?dist = "chunkDistributionOf splitInfo"
  define S where "S = sum_list (map snd ?dist)"
  from assms(1) obtain r0 where
    run: "forEachM (\<lambda>chunksOnShard. chunksOnShardLoop params tag ?sps
                        (fst chunksOnShard) (snd chunksOnShard)) ?dist (0, v, cs) = Inr r0"
    and r: "r = snd r0"
    by (auto simp: tagChunks_def split: sum.splits)
  from forEachM_chunksOnShard_trace[OF run] obtain specs where
    e: "r0 = (0 + S, appendAll params specs (v, cs))" and
    x: "specs = specZoneLayout tag ?sps 0 ?dist" and
    l: "length specs = S" and
    c: "S > 0 \<longrightarrow> 0 + S \<le> Suc (length ?sps) \<and>
              chain (boundaryAt (getMinKey tag) ?sps (getMaxKey tag) 0) specs
                    (boundaryAt (getMinKey tag) ?sps (getMaxKey tag) (0 + S))"
    unfolding S_def[symmetric] by blast
  have ge: "Suc (length ?sps) \<le> S"
    using wrapped_sum_le[of ?dist 0] assms(2) by (simp add: S_def)
  then have pos: "S > 0" by simp
  with c ge have eq: "S = Suc (length ?sps)" by simp
  have ch: "chain (getMinKey tag) specs (getMaxKey tag)"
    using c pos eq by (simp add: boundaryAt_def)
  have ne: "specs \<noteq> []" using l pos by auto
  have "r = appendAll params specs (v, cs)" using e r by simp
  then show ?thesis using ne l eq ch x unfolding S_def by (intro exI[of _ specs]) simp
qed

lemma appendHoleChunk_trace:
  assumes "appendHoleChunk params shardIds a b st = Inr st'"
  shows "shardIds \<noteq> [] \<and> loopPolicy st' = loopPolicy st \<and> lastChunkMax st' = lastChunkMax st \<and>
         holeIndx st' = holeIndx st + 1 \<and>
         (loopVersion st', loopChunks st') =
           appendAll params [(a, b, shardIds ! (holeIndx st mod length shardIds))]
             (loopVersion st, loopChunks st)"
  using assms
  by (auto simp: appendHoleChunk_def Let_def appendChunk_appendAll split: if_splits)

lemma processTag_trace:
  assumes "processTag build params pat shardIds tagToShards tag st = Inr st'"
  shows "\<exists>built zc. build (loopPolicy st) tag pat = Inr built \<and> loopPolicy st' = snd built \<and>
           lastChunkMax st' = getMaxKey tag \<and> zc \<noteq> [] \<and>
           zc = specZoneLayout tag (splitPointsOf (fst built)) 0 (chunkDistributionOf (fst built)) \<and>
           chain (getMinKey tag) zc (getMaxKey tag) \<and>
           length zc = sum_list (map snd (chunkDistributionOf (fst built))) \<and>
           length zc = Suc (length (splitPointsOf (fst built))) \<and>
           holeIndx st' = (if lastChunkMax st < getMinKey tag then holeIndx st + 1 else holeIndx st) \<and>
           (loopVersion st', loopChunks st') =
             appendAll params
               ((if lastChunkMax st < getMinKey tag
                 then [(lastChunkMax st, getMinKey tag, shardIds ! (holeIndx st mod length shardIds))]
                 else []) @ zc)
               (loopVersion st, loopChunks st)"
proof -
  let ?hole = "if lastChunkMax st < getMinKey tag
                 then [(lastChunkMax st, getMinKey tag, shardIds ! (holeIndx st mod length shardIds))]
                 else []"
  from assms obtain st1 where
    h: "(if woCompare (getMinKey tag) (lastChunkMax st) > 0
            then appendHoleChunk params shardIds (lastChunkMax st) (getMinKey tag) st
            else Inr st) = Inr st1"
    by (auto simp: processTag_def split: sum.splits)
  have st1: "loopPolicy st1 = loopPolicy st \<and> lastChunkMax st1 = lastChunkMax st \<and>
      holeIndx st1 = (if lastChunkMax st < getMinKey tag then holeIndx st + 1 else holeIndx st) \<and>
      (loopVersion st1, loopChunks st1) = appendAll params ?hole (loopVersion st, loopChunks st)"
  proof (cases "lastChunkMax st < getMinKey tag")
    case True
    then have "appendHoleChunk params shardIds (lastChunkMax st) (getMinKey tag) st = Inr st1"
      using h by (simp add: woCompare_gt)
    from appendHoleChunk_trace[OF this] show ?thesis using True by simp
  next
    case False
    then have "st1 = st" using h by (simp add: woCompare_gt)
    then show ?thesis using False by (simp add: appendAll_Nil)
  qed
  from assms h obtain built r where
    b: "build (loopPolicy st1) tag pat = Inr built" and
    inv: "length (splitPointsOf (fst built)) + 1 =
           fold (\<lambda>currentElem runningSum. wrapSizeT (runningSum + snd currentElem))
             (chunkDistributionOf (fst built)) 0" and
    tc: "tagChunks params tag (fst built) (loopVersion st1, loopChunks st1) = Inr r" and
    res: "st' = st1\<lparr>loopPolicy := snd built, loopVersion := fst r,
                     loopChunks := snd r, lastChunkMax := getMaxKey tag\<rparr>"
    unfolding processTag_def
    by (simp split: sum.splits option.splits if_splits)
  from tagChunks_trace[OF tc inv] obtain zc where
    zc: "r = appendAll params zc (loopVersion st1, loopChunks st1)" "zc \<noteq> []"
        "length zc = sum_list (map snd (chunkDistributionOf (fst built)))"
        "length zc = Suc (length (splitPointsOf (fst built)))"
        "chain (getMinKey tag) zc (getMaxKey tag)"
        "zc = specZoneLayout tag (splitPointsOf (fst built)) 0 (chunkDistributionOf (fst built))"
    by auto
  have "(loopVersion st', loopChunks st') = appendAll params (?hole @ zc) (loopVersion st, loopChunks st)"
    using res zc(1) st1 by (simp add: appendAll_append)
  moreover have "build (loopPolicy st) tag pat = Inr built" using b st1 by simp
  moreover have "loopPolicy st' = snd built" "lastChunkMax st' = getMaxKey tag"
    "holeIndx st' = (if lastChunkMax st < getMinKey tag then holeIndx st + 1 else holeIndx st)"
    using res st1 by simp_all
  ultimately show ?thesis using zc(2-6)
    by (intro exI[of _ built] exI[of _ zc]) simp
qed

lemma forEachM_processTag_layout:
  assumes "forEachM (processTag build params pat shardIds tagToShards) tagList st = Inr st1"
  shows "\<exists>zcs. list_all2 (\<lambda>z zc. zc \<noteq> [] \<and> chain (getMinKey z) zc (getMaxKey z)) tagList zcs \<and>
           zcs = zoneLayouts build pat (loopPolicy st) tagList \<and>
           (\<forall>gMax. appendAll params
                     (specHoleLayout shardIds (lastChunkMax st) (holeIndx st) (zip tagList zcs) gMax)
                     (loopVersion st, loopChunks st) =
                   appendAll params
                     (specHoleLayout shardIds (lastChunkMax st1) (holeIndx st1) [] gMax)
                     (loopVersion st1, loopChunks st1))"
  using assms
proof (induction tagList arbitrary: st)
  case Nil
  then show ?case by (intro exI[of _ "[]"]) simp
next
  case (Cons tag tagList)
  from Cons.prems obtain s where
    p: "processTag build params pat shardIds tagToShards tag st = Inr s" and
    run: "forEachM (processTag build params pat shardIds tagToShards) tagList s = Inr st1"
    by (auto split: sum.splits)
  from processTag_trace[OF p] obtain built zc where
    b: "build (loopPolicy st) tag pat = Inr built" "loopPolicy s = snd built"
       "zc = specZoneLayout tag (splitPointsOf (fst built)) 0 (chunkDistributionOf (fst built))" and
    zc: "zc \<noteq> []" "chain (getMinKey tag) zc (getMaxKey tag)"
        "lastChunkMax s = getMaxKey tag"
        "holeIndx s = (if lastChunkMax st < getMinKey tag then holeIndx st + 1 else holeIndx st)"
        "(loopVersion s, loopChunks s) =
             appendAll params
               ((if lastChunkMax st < getMinKey tag
                 then [(lastChunkMax st, getMinKey tag, shardIds ! (holeIndx st mod length shardIds))]
                 else []) @ zc)
               (loopVersion st, loopChunks st)"
    by auto
  from Cons.IH[OF run] obtain zcs where
    zx: "zcs = zoneLayouts build pat (loopPolicy s) tagList" and
    zcs: "list_all2 (\<lambda>z zc. zc \<noteq> [] \<and> chain (getMinKey z) zc (getMaxKey z)) tagList zcs"
      "\<And>gMax. appendAll params
                     (specHoleLayout shardIds (lastChunkMax s) (holeIndx s) (zip tagList zcs) gMax)
                     (loopVersion s, loopChunks s) =
                   appendAll params
                     (specHoleLayout shardIds (lastChunkMax st1) (holeIndx st1) [] gMax)
                     (loopVersion st1, loopChunks st1)"
    by auto
  have "appendAll params
          (specHoleLayout shardIds (lastChunkMax st) (holeIndx st) (zip (tag # tagList) (zc # zcs)) gMax)
          (loopVersion st, loopChunks st) =
        appendAll params
          (specHoleLayout shardIds (lastChunkMax st1) (holeIndx st1) [] gMax)
          (loopVersion st1, loopChunks st1)" for gMax
  proof -
    have "specHoleLayout shardIds (lastChunkMax st) (holeIndx st) (zip (tag # tagList) (zc # zcs)) gMax =
        ((if lastChunkMax st < getMinKey tag
          then [(lastChunkMax st, getMinKey tag, shardIds ! (holeIndx st mod length shardIds))]
          else []) @ zc) @
        specHoleLayout shardIds (lastChunkMax s) (holeIndx s) (zip tagList zcs) gMax"
      using zc(3,4) by simp
    then show ?thesis
      using zc(5) zcs(2)[of gMax] by (simp only: appendAll_append)
  qed
  moreover have "list_all2 (\<lambda>z zc. zc \<noteq> [] \<and> chain (getMinKey z) zc (getMaxKey z))
      (tag # tagList) (zc # zcs)"
    using zc(1,2) zcs(1) by simp
  moreover have "zc # zcs = zoneLayouts build pat (loopPolicy st) (tag # tagList)"
    using b zx by simp
  ultimately show ?case by (intro exI[of _ "zc # zcs"]) simp
qed

lemma tagsBased_layout:
  assumes "tagsBasedCreateFirstChunks build tagList tagToShards policy opCtx pat params = Inr chunks"
  shows "tagList \<noteq> [] \<and>
         (\<exists>zcs. list_all2 (\<lambda>z zc. zc \<noteq> [] \<and> chain (getMinKey z) zc (getMaxKey z)) tagList zcs \<and>
            zcs = zoneLayouts build pat policy tagList \<and>
            chunks = chunksFor params (initialVersion opCtx (clusterTime opCtx))
                       (specHoleLayout (getAllShardIdsShuffled opCtx) (globalMin pat) 0
                          (zip tagList zcs) (globalMax pat)))"
proof -
  let ?shardIds = "getAllShardIdsShuffled opCtx"
  let ?st0 = "\<lparr>loopPolicy = policy, loopVersion = initialVersion opCtx (clusterTime opCtx),
                   lastChunkMax = globalMin pat, holeIndx = 0, loopChunks = []\<rparr>"
  from assms have ne: "tagList \<noteq> []"
    by (auto simp: tagsBasedCreateFirstChunks_def split: if_splits)
  from assms ne obtain st1 where
    run: "forEachM (processTag build params pat ?shardIds tagToShards) tagList ?st0 = Inr st1" and
    fin: "(if woCompare (lastChunkMax st1) (globalMax pat) < 0
               then (case appendHoleChunk params ?shardIds (lastChunkMax st1) (globalMax pat) st1 of
                       Inl e \<Rightarrow> Inl e
                     | Inr st' \<Rightarrow> Inr (loopChunks st'))
               else Inr (loopChunks st1)) = Inr chunks"
    by (auto simp: tagsBasedCreateFirstChunks_def Let_def split: sum.splits)
  have last: "chunks = snd (appendAll params
      (specHoleLayout ?shardIds (lastChunkMax st1) (holeIndx st1) [] (globalMax pat))
      (loopVersion st1, loopChunks st1))"
  proof (cases "lastChunkMax st1 < globalMax pat")
    case True
    then obtain st' where h: "appendHoleChunk params ?shardIds (lastChunkMax st1) (globalMax pat) st1 = Inr st'"
      and c: "chunks = loopChunks st'"
      using fin by (auto simp: woCompare_lt split: sum.splits)
    from appendHoleChunk_trace[OF h] have
      "(loopVersion st', loopChunks st') =
           appendAll params [(lastChunkMax st1, globalMax pat, ?shardIds ! (holeIndx st1 mod length ?shardIds))]
             (loopVersion st1, loopChunks st1)"
      by simp
    then have "loopChunks st' = snd (appendAll params
        [(lastChunkMax st1, globalMax pat, ?shardIds ! (holeIndx st1 mod length ?shardIds))]
        (loopVersion st1, loopChunks st1))"
      by (metis snd_conv)
    then show ?thesis using True c by simp
  next
    case False
    then show ?thesis using fin by (simp add: woCompare_lt appendAll_Nil)
  qed
  from forEachM_processTag_layout[OF run] obtain zcs where
    zx: "zcs = zoneLayouts build pat policy tagList" and
    zcs: "list_all2 (\<lambda>z zc. zc \<noteq> [] \<and> chain (getMinKey z) zc (getMaxKey z)) tagList zcs"
      "appendAll params
          (specHoleLayout ?shardIds (globalMin pat) 0 (zip tagList zcs) (globalMax pat))
          (initialVersion opCtx (clusterTime opCtx), []) =
       appendAll params
          (specHoleLayout ?shardIds (lastChunkMax st1) (holeIndx st1) [] (globalMax pat))
          (loopVersion st1, loopChunks st1)"
    by auto
  have "chunks = chunksFor params (initialVersion opCtx (clusterTime opCtx))
                       (specHoleLayout ?shardIds (globalMin pat) 0 (zip tagList zcs) (globalMax pat))"
    unfolding last zcs(2)[symmetric] by (simp add: appendAll_eq)
  then show ?thesis using ne zcs(1) zx by (intro conjI exI[of _ zcs]) simp_all
qed

lemma selectShardAndAppendChunk_trace:
  assumes "selectShardAndAppendChunk params zi zm chunkMax st = Inr st'"
  shows "\<exists>shard. (samplingVersion st', samplingChunks st') =
           appendAll params [(samplingLastChunkMax st, chunkMax, shard)]
             (samplingVersion st, samplingChunks st) \<and>
         samplingLastChunkMax st' = chunkMax"
proof -
  from assms obtain best where
    "st' = \<lparr>chunkDistribution =
                     AList.update best
                       ((case map_of (chunkDistribution st) best of None \<Rightarrow> 0 | Some n \<Rightarrow> n) + 1)
                       (chunkDistribution st),
                   samplingVersion = fst (appendChunk params (samplingLastChunkMax st) chunkMax
                      (samplingVersion st) best (samplingChunks st)),
                   samplingChunks = snd (appendChunk params (samplingLastChunkMax st) chunkMax
                      (samplingVersion st) best (samplingChunks st)),
                   samplingLastChunkMax = chunkMax\<rparr>"
    by (auto simp: selectShardAndAppendChunk_def Let_def split: sum.splits)
  then show ?thesis
    by (intro exI[of _ best]) (simp add: appendChunk_appendAll)
qed

lemma forEachM_selectShard_trace:
  assumes "forEachM (selectShardAndAppendChunk params zi zm) ms st = Inr st'"
  shows "\<exists>specs. (samplingVersion st', samplingChunks st') =
           appendAll params specs (samplingVersion st, samplingChunks st) \<and>
         length specs = length ms \<and>
         chain (samplingLastChunkMax st) specs (last (samplingLastChunkMax st # ms)) \<and>
         samplingLastChunkMax st' = last (samplingLastChunkMax st # ms)"
  using assms
proof (induction ms arbitrary: st)
  case Nil
  then show ?case by (intro exI[of _ "[]"]) (simp add: appendAll_Nil)
next
  case (Cons m ms)
  from Cons.prems obtain s where
    p: "selectShardAndAppendChunk params zi zm m st = Inr s" and
    run: "forEachM (selectShardAndAppendChunk params zi zm) ms s = Inr st'"
    by (auto split: sum.splits)
  from selectShardAndAppendChunk_trace[OF p] obtain shard where
    s: "(samplingVersion s, samplingChunks s) =
           appendAll params [(samplingLastChunkMax st, m, shard)]
             (samplingVersion st, samplingChunks st)"
       "samplingLastChunkMax s = m"
    by auto
  from Cons.IH[OF run] obtain specs where
    r: "(samplingVersion st', samplingChunks st') =
           appendAll params specs (samplingVersion s, samplingChunks s)"
       "length specs = length ms"
       "chain (samplingLastChunkMax s) specs (last (samplingLastChunkMax s # ms))"
       "samplingLastChunkMax st' = last (samplingLastChunkMax s # ms)"
    by auto
  show ?case
    using s r
    by (intro exI[of _ "(samplingLastChunkMax st, m, shard) # specs"])
       (simp add: appendAll_Cons appendAll_Nil)
qed

lemma sampling_trace:
  assumes "samplingCreateFirstChunks policy opCtx p params = Inr chunks"
  shows "\<exists>specs. chunks = chunksFor params (initialVersion opCtx (clusterTime opCtx)) specs \<and>
           specs \<noteq> [] \<and> chain (globalMin p) specs (globalMax p)"
proof -
  from assms obtain sp zi zm dist st where
    run: "forEachM (selectShardAndAppendChunk params zi zm) (sp @ [globalMax p])
            \<lparr>chunkDistribution = dist,
             samplingVersion = initialVersion opCtx (clusterTime opCtx),
             samplingChunks = [],
             samplingLastChunkMax = globalMin p\<rparr> = Inr st" and
    c: "chunks = samplingChunks st"
    unfolding samplingCreateFirstChunks_def Let_def
    by (auto split: sum.splits)
  from forEachM_selectShard_trace[OF run] obtain specs where
    r: "(samplingVersion st, samplingChunks st) =
           appendAll params specs (initialVersion opCtx (clusterTime opCtx), [])"
       "length specs = length (sp @ [globalMax p])"
       "chain (globalMin p) specs (last (globalMin p # sp @ [globalMax p]))"
    by auto
  have "samplingChunks st = chunksFor params (initialVersion opCtx (clusterTime opCtx)) specs"
    using r(1) by (simp add: appendAll_eq)
  moreover have "specs \<noteq> []" using r(2) by auto
  moreover have "chain (globalMin p) specs (globalMax p)" using r(3) by simp
  ultimately show ?thesis using c by (intro exI[of _ specs]) simp
qed

section \<open>The shard distribution policy emits its ranges\<close>

declare appendChunksLoop.simps [simp del]

lemma appendChunksLoop_unfold:
  "appendChunksLoop params dist p sp (idx, v, cs) =
     (if idx < length dist
      then
        (case rangeMin (dist ! idx) of
           None \<Rightarrow> Inl UndefinedBehaviour
         | Some rmin \<Rightarrow>
             (case rangeMax (dist ! idx) of
                None \<Rightarrow> Inl UndefinedBehaviour
              | Some rmax \<Rightarrow>
                  if extendRangeBound p rmin False < sp
                  then
                    (if extendRangeBound p rmax False \<le> sp
                     then appendChunksLoop params dist p sp
                            (idx + 1,
                             appendChunk params
                               (if cs = [] then globalMin p else getMax (getRange (last cs)))
                               (extendRangeBound p rmax False) v (rangeShard (dist ! idx)) cs)
                     else Inr (idx,
                             appendChunk params
                               (if cs = [] then globalMin p else getMax (getRange (last cs)))
                               sp v (rangeShard (dist ! idx)) cs))
                  else Inr (idx, v, cs)))
      else Inr (idx, v, cs))"
  by (subst appendChunksLoop.simps) (simp add: Let_def split: option.splits)

lemma last_chunksFor:
  assumes "chain lo specs hi"
  shows "(if chunksFor params v specs = [] then lo
          else getMax (getRange (last (chunksFor params v specs)))) = hi"
proof (cases specs rule: rev_cases)
  case Nil
  then show ?thesis using assms by (simp add: chunksFor_Nil)
next
  case (snoc xs x)
  then have "chain lo (xs @ [x]) hi" using assms by simp
  then have "fst (snd x) = hi" by (auto simp: chain_append)
  then show ?thesis using snoc by (simp add: chunksFor_snoc makeChunk_def)
qed

lemma appendChunksLoop_trace:
  assumes "appendChunksLoop params dist p sp (idx, v, cs) = Inr (idx', v', cs')"
    and "(v, cs) = appendAll params specs (v0, [])"
    and "chain (globalMin p) specs hi"
    and "idx \<le> length dist"
    and "idx = length dist \<longrightarrow> specs \<noteq> [] \<and>
           hi = extendRangeBound p (the (rangeMax (dist ! (length dist - 1)))) False"
  shows "\<exists>specs' hi'. (v', cs') = appendAll params specs' (v0, []) \<and>
           chain (globalMin p) specs' hi' \<and> idx \<le> idx' \<and> idx' \<le> length dist \<and>
           (idx' = length dist \<longrightarrow> specs' \<noteq> [] \<and>
              hi' = extendRangeBound p (the (rangeMax (dist ! (length dist - 1)))) False)"
  using assms
proof (induction "length dist - idx" arbitrary: idx v cs specs hi)
  case 0
  then have "idx = length dist" by simp
  then have "(idx', v', cs') = (idx, v, cs)"
    using "0.prems"(1) by (simp add: appendChunksLoop_unfold)
  then show ?case
    using "0.prems" by (intro exI[of _ specs] exI[of _ hi]) simp
next
  case (Suc d)
  then have lt: "idx < length dist" by simp
  have cs: "cs = chunksFor params v0 specs" and v: "v = bumpMinor v0 (length specs)"
    using Suc.prems(2) by (simp_all add: appendAll_eq)
  have lastMax: "(if cs = [] then globalMin p else getMax (getRange (last cs))) = hi"
    unfolding cs using Suc.prems(3) by (rule last_chunksFor)
  from Suc.prems(1) lt obtain rmin rmax where
    mn: "rangeMin (dist ! idx) = Some rmin" and mx: "rangeMax (dist ! idx) = Some rmax"
    by (auto simp: appendChunksLoop_unfold split: option.splits)
  let ?smin = "extendRangeBound p rmin False"
  let ?smax = "extendRangeBound p rmax False"
  show ?case
  proof (cases "?smin < sp")
    case False
    then have "(idx', v', cs') = (idx, v, cs)"
      using Suc.prems(1) lt mn mx by (simp add: appendChunksLoop_unfold)
    then show ?thesis
      using Suc.prems lt by (intro exI[of _ specs] exI[of _ hi]) simp
  next
    case True
    show ?thesis
    proof (cases "?smax \<le> sp")
      case False
      let ?specs' = "specs @ [(hi, sp, rangeShard (dist ! idx))]"
      have "(idx', v', cs') = (idx, appendChunk params hi sp v (rangeShard (dist ! idx)) cs)"
        using Suc.prems(1) lt mn mx True False lastMax by (auto simp: appendChunksLoop_unfold)
      then have r: "idx' = idx" "(v', cs') = appendAll params ?specs' (v0, [])"
        using Suc.prems(2) by (simp_all add: appendChunk_appendAll appendAll_append)
      have "chain (globalMin p) ?specs' sp"
        using Suc.prems(3) by (subst chain_append) (rule exI[of _ hi], simp)
      then show ?thesis
        using r lt by (intro exI[of _ ?specs'] exI[of _ sp]) simp
    next
      case le: True
      let ?specs' = "specs @ [(hi, ?smax, rangeShard (dist ! idx))]"
      obtain v1 cs1 where a: "appendChunk params hi ?smax v (rangeShard (dist ! idx)) cs = (v1, cs1)"
        by (cases "appendChunk params hi ?smax v (rangeShard (dist ! idx)) cs")
      have run: "appendChunksLoop params dist p sp (idx + 1, v1, cs1) = Inr (idx', v', cs')"
        using Suc.prems(1) lt mn mx True le lastMax a by (simp add: appendChunksLoop_unfold)
      have tr: "(v1, cs1) = appendAll params ?specs' (v0, [])"
        using a Suc.prems(2) by (simp add: appendChunk_appendAll appendAll_append)
      have ch: "chain (globalMin p) ?specs' ?smax"
        using Suc.prems(3) by (subst chain_append) (rule exI[of _ hi], simp)
      have d: "d = length dist - (idx + 1)" using Suc.hyps(2) by simp
      have bnd: "idx + 1 \<le> length dist" using lt by simp
      have fin: "idx + 1 = length dist \<longrightarrow> ?specs' \<noteq> [] \<and>
           ?smax = extendRangeBound p (the (rangeMax (dist ! (length dist - 1)))) False"
      proof (intro impI conjI)
        assume e: "idx + 1 = length dist"
        then have "length dist - 1 = idx" by simp
        then show "?smax = extendRangeBound p (the (rangeMax (dist ! (length dist - 1)))) False"
          using mx by simp
      qed simp
      from Suc.hyps(1)[OF d run tr ch bnd fin] obtain specs'' hi'' where
        "(v', cs') = appendAll params specs'' (v0, [])"
        "chain (globalMin p) specs'' hi''" "idx + 1 \<le> idx'" "idx' \<le> length dist"
        "idx' = length dist \<longrightarrow> specs'' \<noteq> [] \<and>
              hi'' = extendRangeBound p (the (rangeMax (dist ! (length dist - 1)))) False"
        by auto
      then show ?thesis
        by (intro exI[of _ specs''] exI[of _ hi'']) simp
    qed
  qed
qed

lemma appendChunksLoop_final:
  assumes "appendChunksLoop params dist p sp (idx, v, cs) = Inr (idx', v', cs')"
    and "\<forall>i<length dist. \<exists>rmin rmax. rangeMin (dist ! i) = Some rmin \<and>
           rangeMax (dist ! i) = Some rmax \<and> extendRangeBound p rmin False < sp \<and>
           extendRangeBound p rmax False \<le> sp"
    and "idx \<le> length dist"
  shows "idx' = length dist"
  using assms
proof (induction "length dist - idx" arbitrary: idx v cs)
  case 0
  then show ?case by (simp add: appendChunksLoop_unfold)
next
  case (Suc d)
  then have lt: "idx < length dist" by simp
  from Suc.prems(2) lt obtain rmin rmax where
    b: "rangeMin (dist ! idx) = Some rmin" "rangeMax (dist ! idx) = Some rmax"
       "extendRangeBound p rmin False < sp" "extendRangeBound p rmax False \<le> sp"
    by blast
  obtain v1 cs1 where a: "appendChunk params
        (if cs = [] then globalMin p else getMax (getRange (last cs)))
        (extendRangeBound p rmax False) v (rangeShard (dist ! idx)) cs = (v1, cs1)"
    by (cases "appendChunk params
        (if cs = [] then globalMin p else getMax (getRange (last cs)))
        (extendRangeBound p rmax False) v (rangeShard (dist ! idx)) cs")
  have run: "appendChunksLoop params dist p sp (idx + 1, v1, cs1) = Inr (idx', v', cs')"
    using Suc.prems(1) lt b a by (simp add: appendChunksLoop_unfold)
  have d: "d = length dist - (idx + 1)" using Suc.hyps(2) by simp
  have bnd: "idx + 1 \<le> length dist" using lt by simp
  from Suc.hyps(1)[OF d run Suc.prems(2) bnd] show ?case .
qed

lemma forEachM_appendChunksLoop_trace:
  assumes "forEachM (appendChunksLoop params dist p) sps (idx, v, cs) = Inr (idx', v', cs')"
    and "(v, cs) = appendAll params specs (v0, [])"
    and "chain (globalMin p) specs hi"
    and "idx \<le> length dist"
    and "idx = length dist \<longrightarrow> specs \<noteq> [] \<and>
           hi = extendRangeBound p (the (rangeMax (dist ! (length dist - 1)))) False"
  shows "\<exists>specs' hi'. (v', cs') = appendAll params specs' (v0, []) \<and>
           chain (globalMin p) specs' hi' \<and> idx \<le> idx' \<and> idx' \<le> length dist \<and>
           (idx' = length dist \<longrightarrow> specs' \<noteq> [] \<and>
              hi' = extendRangeBound p (the (rangeMax (dist ! (length dist - 1)))) False)"
  using assms
proof (induction sps arbitrary: idx v cs specs hi)
  case Nil
  then show ?case by (intro exI[of _ specs] exI[of _ hi]) simp
next
  case (Cons sp sps)
  from Cons.prems(1) obtain i1 v1 cs1 where
    s: "appendChunksLoop params dist p sp (idx, v, cs) = Inr (i1, v1, cs1)" and
    run: "forEachM (appendChunksLoop params dist p) sps (i1, v1, cs1) = Inr (idx', v', cs')"
    by (auto split: sum.splits)
  from appendChunksLoop_trace[OF s Cons.prems(2-5)] obtain specs1 hi1 where
    t: "(v1, cs1) = appendAll params specs1 (v0, [])" "chain (globalMin p) specs1 hi1"
       "idx \<le> i1" "i1 \<le> length dist"
       "i1 = length dist \<longrightarrow> specs1 \<noteq> [] \<and>
              hi1 = extendRangeBound p (the (rangeMax (dist ! (length dist - 1)))) False"
    by auto
  from Cons.IH[OF run t(1,2,4,5)] obtain specs' hi' where
    "(v', cs') = appendAll params specs' (v0, [])" "chain (globalMin p) specs' hi'"
    "i1 \<le> idx'" "idx' \<le> length dist"
    "idx' = length dist \<longrightarrow> specs' \<noteq> [] \<and>
              hi' = extendRangeBound p (the (rangeMax (dist ! (length dist - 1)))) False"
    by auto
  then show ?case using t(3)
    by (intro exI[of _ specs'] exI[of _ hi']) simp
qed

lemma rangesCover_bounds:
  assumes "rangesCover p lo dist"
  shows "lo \<le> globalMax p \<and>
         (\<forall>i<length dist. \<exists>rmin rmax. rangeMin (dist ! i) = Some rmin \<and>
            rangeMax (dist ! i) = Some rmax \<and> extendRangeBound p rmin False < globalMax p \<and>
            extendRangeBound p rmax False \<le> globalMax p) \<and>
         (dist \<noteq> [] \<longrightarrow> extendRangeBound p (the (rangeMax (last dist))) False = globalMax p)"
  using assms
proof (induction dist arbitrary: lo)
  case Nil
  then show ?case by simp
next
  case (Cons r rs)
  from Cons.prems obtain rmin rmax where
    b: "rangeMin r = Some rmin" "rangeMax r = Some rmax"
       "extendRangeBound p rmin False = lo" "lo < extendRangeBound p rmax False"
       "rangesCover p (extendRangeBound p rmax False) rs"
    by (auto split: option.splits)
  from Cons.IH[OF b(5)] have
    ih: "extendRangeBound p rmax False \<le> globalMax p"
      "\<forall>i<length rs. \<exists>rmin rmax. rangeMin (rs ! i) = Some rmin \<and>
            rangeMax (rs ! i) = Some rmax \<and> extendRangeBound p rmin False < globalMax p \<and>
            extendRangeBound p rmax False \<le> globalMax p"
      "rs \<noteq> [] \<longrightarrow> extendRangeBound p (the (rangeMax (last rs))) False = globalMax p"
    by simp_all
  have lo: "lo < globalMax p" using b(4) ih(1) by simp
  have all: "\<exists>rmin rmax. rangeMin ((r # rs) ! i) = Some rmin \<and>
            rangeMax ((r # rs) ! i) = Some rmax \<and> extendRangeBound p rmin False < globalMax p \<and>
            extendRangeBound p rmax False \<le> globalMax p" if "i < length (r # rs)" for i
  proof (cases i)
    case 0
    then show ?thesis using b lo ih(1) by simp
  next
    case (Suc j)
    then show ?thesis using ih(2) that by simp
  qed
  have lst: "extendRangeBound p (the (rangeMax (last (r # rs)))) False = globalMax p"
  proof (cases "rs = []")
    case True
    then show ?thesis using b by simp
  next
    case False
    then show ?thesis using ih(3) by simp
  qed
  show ?case using lo all lst by simp
qed

lemma shardDistribution_trace:
  assumes "shardDistributionCreateFirstChunks policy opCtx p params = Inr chunks"
  shows "\<exists>specs hi. chunks = chunksFor params (initialVersion opCtx (clusterTime opCtx)) specs \<and>
           chain (globalMin p) specs hi \<and>
           (rangesCover p (globalMin p) (m_shardDistribution policy) \<longrightarrow>
              specs \<noteq> [] \<and> hi = globalMax p)"
proof -
  let ?dist = "m_shardDistribution policy"
  let ?v0 = "initialVersion opCtx (clusterTime opCtx)"
  define sps where "sps = extractSplitPointsFromZones p (extendZones p (m_distributionZones policy))"
  from assms have ne: "?dist \<noteq> []"
    by (auto simp: shardDistributionCreateFirstChunks_def Let_def split: if_splits)
  from assms ne obtain st where
    run: "forEachM (appendChunksLoop params ?dist p) (sps @ [globalMax p]) (0, ?v0, []) = Inr st"
    and c: "chunks = snd (snd st)"
    unfolding shardDistributionCreateFirstChunks_def Let_def sps_def[symmetric]
    by (auto split: if_splits sum.splits option.splits)
  from run obtain st1 where
    r1: "forEachM (appendChunksLoop params ?dist p) sps (0, ?v0, []) = Inr st1" and
    r2: "appendChunksLoop params ?dist p (globalMax p) st1 = Inr st"
    by (auto simp: forEachM_append split: sum.splits)
  obtain i1 v1 cs1 where st1: "st1 = (i1, v1, cs1)" by (cases st1)
  obtain i2 v2 cs2 where st: "st = (i2, v2, cs2)" by (cases st)
  have init: "(?v0, []) = appendAll params [] (?v0, [])" by (simp add: appendAll_Nil)
  have ch0: "chain (globalMin p) [] (globalMin p)" by simp
  have b0: "0 \<le> length ?dist" by simp
  have f0: "0 = length ?dist \<longrightarrow> [] \<noteq> ([] :: ChunkSpec list) \<and>
      globalMin p = extendRangeBound p (the (rangeMax (?dist ! (length ?dist - 1)))) False"
    using ne by simp
  from forEachM_appendChunksLoop_trace[OF r1[unfolded st1] init ch0 b0 f0] obtain specs1 hi1 where
    t1: "(v1, cs1) = appendAll params specs1 (?v0, [])" "chain (globalMin p) specs1 hi1"
        "i1 \<le> length ?dist"
        "i1 = length ?dist \<longrightarrow> specs1 \<noteq> [] \<and>
              hi1 = extendRangeBound p (the (rangeMax (?dist ! (length ?dist - 1)))) False"
    by auto
  from appendChunksLoop_trace[OF r2[unfolded st1 st] t1] obtain specs hi where
    t2: "(v2, cs2) = appendAll params specs (?v0, [])" "chain (globalMin p) specs hi"
        "i2 = length ?dist \<longrightarrow> specs \<noteq> [] \<and>
              hi = extendRangeBound p (the (rangeMax (?dist ! (length ?dist - 1)))) False"
    by auto
  have chunks: "chunks = chunksFor params ?v0 specs"
    using c st t2(1) by (simp add: appendAll_eq)
  have fin: "specs \<noteq> [] \<and> hi = globalMax p" if cov: "rangesCover p (globalMin p) ?dist"
  proof -
    from rangesCover_bounds[OF cov] have
      b: "\<forall>i<length ?dist. \<exists>rmin rmax. rangeMin (?dist ! i) = Some rmin \<and>
            rangeMax (?dist ! i) = Some rmax \<and> extendRangeBound p rmin False < globalMax p \<and>
            extendRangeBound p rmax False \<le> globalMax p"
      and l: "extendRangeBound p (the (rangeMax (last ?dist))) False = globalMax p"
      using ne by simp_all
    have "i2 = length ?dist"
      by (rule appendChunksLoop_final[OF r2[unfolded st1 st] b t1(3)])
    moreover have "?dist ! (length ?dist - 1) = last ?dist"
      using ne by (simp add: last_conv_nth)
    ultimately show ?thesis using t2(3) l by simp
  qed
  show ?thesis using chunks t2(2) fin
    by (intro exI[of _ specs] exI[of _ hi]) simp
qed

lemma specHoleLayout_chain:
  assumes "tagsAscendingFrom lo tagList hi"
    and "list_all2 (\<lambda>z zc. zc \<noteq> [] \<and> chain (getMinKey z) zc (getMaxKey z)) tagList zcs"
  shows "chain lo (specHoleLayout shardIds lo h (zip tagList zcs) hi) hi"
  using assms
proof (induction tagList arbitrary: lo h zcs)
  case Nil
  then show ?case by auto
next
  case (Cons z tagList)
  from Cons.prems(2) obtain zc zcs' where
    z: "zcs = zc # zcs'" "chain (getMinKey z) zc (getMaxKey z)"
       "list_all2 (\<lambda>z zc. zc \<noteq> [] \<and> chain (getMinKey z) zc (getMaxKey z)) tagList zcs'"
    by (auto simp: list_all2_Cons1)
  from Cons.prems(1) have asc: "lo \<le> getMinKey z" "tagsAscendingFrom (getMaxKey z) tagList hi"
    by simp_all
  have rest: "chain (getMaxKey z) (specHoleLayout shardIds (getMaxKey z) h' (zip tagList zcs') hi) hi" for h'
    by (rule Cons.IH[OF asc(2) z(3)])
  have zone: "chain (getMinKey z) (zc @ specHoleLayout shardIds (getMaxKey z) h' (zip tagList zcs') hi) hi" for h'
    using z(2) rest[of h'] by (subst chain_append) (rule exI[of _ "getMaxKey z"], simp)
  show ?case
  proof (cases "lo < getMinKey z")
    case True
    then show ?thesis using zone[of "h + 1"] by (simp add: z(1))
  next
    case False
    then have "lo = getMinKey z" using asc(1) by simp
    then show ?thesis using zone[of h] by (simp add: z(1))
  qed
qed

lemma specHoleLayout_nonempty:
  assumes "tagList \<noteq> []"
    and "list_all2 (\<lambda>z zc. zc \<noteq> [] \<and> chain (getMinKey z) zc (getMaxKey z)) tagList zcs"
  shows "specHoleLayout shardIds lo h (zip tagList zcs) hi \<noteq> []"
proof -
  from assms obtain z ts zc zcs' where "tagList = z # ts" "zcs = zc # zcs'" "zc \<noteq> []"
    by (cases tagList) (auto simp: list_all2_Cons1)
  then show ?thesis by simp
qed

lemma policy_trace:
  assumes "createFirstChunks policy opCtx p params = Inr chunks"
  shows "\<exists>specs. chunks = chunksFor params (initialVersion opCtx (clusterTime opCtx)) specs \<and>
           (preconditionsHold p policy \<longrightarrow> specs \<noteq> [] \<and> chain (globalMin p) specs (globalMax p))"
proof (cases policy)
  case SingleChunkOnPrimary
  then have "chunks = chunksFor params (initialVersion opCtx (clusterTime opCtx))
            [(globalMin p, globalMax p, primaryShardId params)]"
    using assms by (simp add: singleChunkOnPrimary_trace)
  then show ?thesis
    by (intro exI[of _ "[(globalMin p, globalMax p, primaryShardId params)]"]) simp
next
  case (SplitPointsBased sps n)
  then have "generateShardCollectionInitialChunks opCtx params p (clusterTime opCtx) sps
      (getAllShardIdsShuffled opCtx) n = Inr chunks"
    using assms by (simp add: splitPointsBasedCreateFirstChunks_def)
  from generate_trace[OF this] obtain specs where
    "chunks = chunksFor params (initialVersion opCtx (clusterTime opCtx)) specs"
    "specs \<noteq> []" "chain (globalMin p) specs (globalMax p)" by auto
  then show ?thesis by (intro exI[of _ specs]) simp
next
  case (SingleChunkPerTag pol)
  then have "tagsBasedCreateFirstChunks singleChunkPerTagBuildSplitInfoForTag
       (m_tags pol) (m_tagToShardIds pol) pol opCtx p params = Inr chunks"
    using assms by simp
  from tagsBased_layout[OF this] obtain zcs where
    z: "m_tags pol \<noteq> []"
       "list_all2 (\<lambda>z zc. zc \<noteq> [] \<and> chain (getMinKey z) zc (getMaxKey z)) (m_tags pol) zcs"
       "chunks = chunksFor params (initialVersion opCtx (clusterTime opCtx))
                       (specHoleLayout (getAllShardIdsShuffled opCtx) (globalMin p) 0
                          (zip (m_tags pol) zcs) (globalMax p))"
    by auto
  show ?thesis
    using z(3) specHoleLayout_nonempty[OF z(1,2)] specHoleLayout_chain[OF _ z(2)] SingleChunkPerTag
    by (intro exI[of _ "specHoleLayout (getAllShardIdsShuffled opCtx) (globalMin p) 0
                          (zip (m_tags pol) zcs) (globalMax p)"]) simp
next
  case (PresplitHashedZones pol)
  then have "tagsBasedCreateFirstChunks presplitBuildSplitInfoForTag
       (m_tags pol) (m_tagToShardIds pol) pol opCtx p params = Inr chunks"
    using assms by simp
  from tagsBased_layout[OF this] obtain zcs where
    z: "m_tags pol \<noteq> []"
       "list_all2 (\<lambda>z zc. zc \<noteq> [] \<and> chain (getMinKey z) zc (getMaxKey z)) (m_tags pol) zcs"
       "chunks = chunksFor params (initialVersion opCtx (clusterTime opCtx))
                       (specHoleLayout (getAllShardIdsShuffled opCtx) (globalMin p) 0
                          (zip (m_tags pol) zcs) (globalMax p))"
    by auto
  show ?thesis
    using z(3) specHoleLayout_nonempty[OF z(1,2)] specHoleLayout_chain[OF _ z(2)] PresplitHashedZones
    by (intro exI[of _ "specHoleLayout (getAllShardIdsShuffled opCtx) (globalMin p) 0
                          (zip (m_tags pol) zcs) (globalMax p)"]) simp
next
  case (SamplingBased pol)
  then have "samplingCreateFirstChunks pol opCtx p params = Inr chunks"
    using assms by simp
  from sampling_trace[OF this] obtain specs where
    "chunks = chunksFor params (initialVersion opCtx (clusterTime opCtx)) specs"
    "specs \<noteq> []" "chain (globalMin p) specs (globalMax p)" by auto
  then show ?thesis by (intro exI[of _ specs]) simp
next
  case (ShardDistribution pol)
  then have "shardDistributionCreateFirstChunks pol opCtx p params = Inr chunks"
    using assms by simp
  from shardDistribution_trace[OF this] obtain specs hi where
    "chunks = chunksFor params (initialVersion opCtx (clusterTime opCtx)) specs"
    "chain (globalMin p) specs hi"
    "rangesCover p (globalMin p) (m_shardDistribution pol) \<longrightarrow> specs \<noteq> [] \<and> hi = globalMax p"
    by auto
  then show ?thesis using ShardDistribution by (intro exI[of _ specs]) auto
qed

section \<open>Tiling and versions of the emitted chunks\<close>

lemma examplePolicy_run:
  "createFirstChunks examplePolicy exampleContext examplePattern exampleParams =
     Inr (chunksFor exampleParams \<lparr>epoch = 42, timestamp = 7, majorVersion = 1, minorVersion = 0\<rparr>
            exampleLayout)"
  by (simp add: examplePolicy_def exampleContext_def examplePattern_def exampleParams_def
      exampleZones_def exampleLayout_def tagsBasedCreateFirstChunks_def processTag_def
      appendHoleChunk_def tagChunks_def singleChunkPerTagBuildSplitInfoForTag_def woCompare_def
      getAllShardIdsShuffled_def initialVersion_def globalMin_def globalMax_def wrapSizeT_def
      vectorAt_def appendChunk_def incMinor_def chunksFor_def makeChunk_def bumpMinor_def Let_def
      less_BSONValue_def less_eq_BSONValue_def)

lemma examplePolicy_pre: "preconditionsHold examplePattern examplePolicy"
  by (simp add: examplePolicy_def examplePattern_def exampleZones_def globalMin_def globalMax_def
      less_BSONValue_def less_eq_BSONValue_def)

text \<open>
  Claim C1. Under the preconditions the specification states for the input of each policy
  (zones sorted and not overlapping within the key space, shard ranges contiguous and
  complete), the chunks that createFirstChunks returns tile the key space: there is at least
  one chunk, the first chunk starts at the global minimum, the last chunk ends at the global
  maximum, and every chunk ends where the next one starts.
\<close>

theorem createFirstChunks_tiles:
  assumes "createFirstChunks policy opCtx p params = Inr chunks"
    and "preconditionsHold p policy"
  shows "chunks \<noteq> [] \<and>
         getMin (getRange (hd chunks)) = globalMin p \<and>
         getMax (getRange (last chunks)) = globalMax p \<and>
         (\<forall>i. Suc i < length chunks \<longrightarrow>
              getMax (getRange (chunks ! i)) = getMin (getRange (chunks ! Suc i)))"
proof -
  from policy_trace[OF assms(1)] assms(2) obtain specs where
    c: "chunks = chunksFor params (initialVersion opCtx (clusterTime opCtx)) specs" and
    ne: "specs \<noteq> []" and ch: "chain (globalMin p) specs (globalMax p)"
    by auto
  have em: "map emitted chunks = specs" by (simp add: c map_emitted_chunksFor)
  have len: "length chunks = length specs" by (simp add: c length_chunksFor)
  have cne: "chunks \<noteq> []" using ne len by auto
  have nth: "specs ! i = emitted (chunks ! i)" if "i < length chunks" for i
    using that em by (metis nth_map)
  have "fst (hd specs) = globalMin p" "fst (snd (last specs)) = globalMax p"
    using chain_ends[OF ch ne] by simp_all
  moreover have "hd specs = emitted (hd chunks)" using em cne by (metis hd_map)
  moreover have "last specs = emitted (last chunks)" using em cne by (metis last_map)
  ultimately have ends: "getMin (getRange (hd chunks)) = globalMin p"
      "getMax (getRange (last chunks)) = globalMax p"
    by (simp_all add: emitted_def)
  have adj: "getMax (getRange (chunks ! i)) = getMin (getRange (chunks ! Suc i))"
    if "Suc i < length chunks" for i
  proof -
    have "fst (snd (specs ! i)) = fst (specs ! Suc i)"
      using chain_adjacent[OF ch] that len by simp
    then show ?thesis using nth[of i] nth[of "Suc i"] that by (simp add: emitted_def)
  qed
  show ?thesis using cne ends adj by simp
qed

theorem createFirstChunks_tiles_witness:
  "createFirstChunks examplePolicy exampleContext examplePattern exampleParams =
     Inr (chunksFor exampleParams \<lparr>epoch = 42, timestamp = 7, majorVersion = 1, minorVersion = 0\<rparr>
            exampleLayout)
   \<and> preconditionsHold examplePattern examplePolicy
   \<and> getMin (getRange (hd (chunksFor exampleParams
        \<lparr>epoch = 42, timestamp = 7, majorVersion = 1, minorVersion = 0\<rparr> exampleLayout)))
       = globalMin examplePattern
   \<and> getMax (getRange (last (chunksFor exampleParams
        \<lparr>epoch = 42, timestamp = 7, majorVersion = 1, minorVersion = 0\<rparr> exampleLayout)))
       = globalMax examplePattern
   \<and> getMax (getRange (chunksFor exampleParams
        \<lparr>epoch = 42, timestamp = 7, majorVersion = 1, minorVersion = 0\<rparr> exampleLayout ! 1))
       = getMin (getRange (chunksFor exampleParams
        \<lparr>epoch = 42, timestamp = 7, majorVersion = 1, minorVersion = 0\<rparr> exampleLayout ! 2))"
proof -
  let ?cs = "chunksFor exampleParams
        \<lparr>epoch = 42, timestamp = 7, majorVersion = 1, minorVersion = 0\<rparr> exampleLayout"
  have len: "Suc 1 < length ?cs" by (simp add: length_chunksFor exampleLayout_def)
  note inst = createFirstChunks_tiles[OF examplePolicy_run examplePolicy_pre]
  have a: "getMin (getRange (hd ?cs)) = globalMin examplePattern"
    by (rule inst[THEN conjunct2, THEN conjunct1])
  have b: "getMax (getRange (last ?cs)) = globalMax examplePattern"
    by (rule inst[THEN conjunct2, THEN conjunct2, THEN conjunct1])
  have c: "getMax (getRange (?cs ! 1)) = getMin (getRange (?cs ! Suc 1))"
    by (rule inst[THEN conjunct2, THEN conjunct2, THEN conjunct2, THEN spec, THEN mp, OF len])
  have d: "Suc 1 = 2" by simp
  show ?thesis
    apply (intro conjI)
        apply (rule examplePolicy_run)
       apply (rule examplePolicy_pre)
      apply (rule a)
     apply (rule b)
    apply (rule c[unfolded d])
    done
qed

text \<open>
  Claim C2. In the chunks that createFirstChunks returns, every chunk carries the epoch and
  the timestamp of the initial version, the major version is 1 and the minor version of the
  chunk at index i is i, so the version of every chunk is less than the version of the next
  one; appendChunk stamps the current version onto the chunk it appends and returns the
  version with its minor counter incremented and its other components unchanged.
\<close>

theorem createFirstChunks_versions:
  assumes "createFirstChunks policy opCtx p params = Inr chunks"
  shows "(\<forall>c\<in>set chunks. epoch (getVersion c) = genOID opCtx \<and>
                          timestamp (getVersion c) = clusterTime opCtx)
       \<and> (\<forall>i<length chunks. majorVersion (getVersion (chunks ! i)) = 1 \<and>
                            minorVersion (getVersion (chunks ! i)) = i)
       \<and> (\<forall>i. Suc i < length chunks \<longrightarrow>
              versionLess (getVersion (chunks ! i)) (getVersion (chunks ! Suc i)))
       \<and> (\<exists>c. appendChunk params' a b v s cs = (incMinor v, cs @ [c]) \<and> getVersion c = v)
       \<and> minorVersion (incMinor v) = minorVersion v + 1 \<and> majorVersion (incMinor v) = majorVersion v
       \<and> epoch (incMinor v) = epoch v \<and> timestamp (incMinor v) = timestamp v"
proof -
  let ?v0 = "initialVersion opCtx (clusterTime opCtx)"
  from policy_trace[OF assms] obtain specs where
    c: "chunks = chunksFor params ?v0 specs" by auto
  have len: "length chunks = length specs" by (simp add: c length_chunksFor)
  have ver: "getVersion (chunks ! i) = bumpMinor ?v0 i" if "i < length chunks" for i
  proof -
    have "map getVersion chunks ! i = map (bumpMinor ?v0) [0..<length specs] ! i"
      by (simp add: c map_getVersion_chunksFor)
    then show ?thesis using that len by simp
  qed
  have fields: "epoch (bumpMinor ?v0 i) = genOID opCtx" "timestamp (bumpMinor ?v0 i) = clusterTime opCtx"
    "majorVersion (bumpMinor ?v0 i) = 1" "minorVersion (bumpMinor ?v0 i) = i" for i
    by (simp_all add: bumpMinor_def initialVersion_def)
  have one: "\<forall>c\<in>set chunks. epoch (getVersion c) = genOID opCtx \<and>
                          timestamp (getVersion c) = clusterTime opCtx"
  proof
    fix c assume "c \<in> set chunks"
    then obtain i where "i < length chunks" "c = chunks ! i" by (auto simp: in_set_conv_nth)
    then show "epoch (getVersion c) = genOID opCtx \<and> timestamp (getVersion c) = clusterTime opCtx"
      using ver fields by simp
  qed
  have two: "\<forall>i<length chunks. majorVersion (getVersion (chunks ! i)) = 1 \<and>
                            minorVersion (getVersion (chunks ! i)) = i"
    using ver fields by simp
  have three: "\<forall>i. Suc i < length chunks \<longrightarrow>
              versionLess (getVersion (chunks ! i)) (getVersion (chunks ! Suc i))"
    using ver fields by (simp add: versionLess_def)
  have four: "\<exists>c. appendChunk params' a b v s cs = (incMinor v, cs @ [c]) \<and> getVersion c = v"
    by (simp add: appendChunk_def)
  show ?thesis using one two three four by (simp add: incMinor_def)
qed

theorem createFirstChunks_versions_witness:
  "createFirstChunks examplePolicy exampleContext examplePattern exampleParams =
     Inr (chunksFor exampleParams \<lparr>epoch = 42, timestamp = 7, majorVersion = 1, minorVersion = 0\<rparr>
            exampleLayout)
   \<and> map getVersion (chunksFor exampleParams
        \<lparr>epoch = 42, timestamp = 7, majorVersion = 1, minorVersion = 0\<rparr> exampleLayout) =
       [\<lparr>epoch = 42, timestamp = 7, majorVersion = 1, minorVersion = 0\<rparr>,
        \<lparr>epoch = 42, timestamp = 7, majorVersion = 1, minorVersion = 1\<rparr>,
        \<lparr>epoch = 42, timestamp = 7, majorVersion = 1, minorVersion = 2\<rparr>,
        \<lparr>epoch = 42, timestamp = 7, majorVersion = 1, minorVersion = 3\<rparr>,
        \<lparr>epoch = 42, timestamp = 7, majorVersion = 1, minorVersion = 4\<rparr>]
   \<and> versionLess
        (getVersion (chunksFor exampleParams
           \<lparr>epoch = 42, timestamp = 7, majorVersion = 1, minorVersion = 0\<rparr> exampleLayout ! 3))
        (getVersion (chunksFor exampleParams
           \<lparr>epoch = 42, timestamp = 7, majorVersion = 1, minorVersion = 0\<rparr> exampleLayout ! Suc 3))"
proof -
  let ?cs = "chunksFor exampleParams
        \<lparr>epoch = 42, timestamp = 7, majorVersion = 1, minorVersion = 0\<rparr> exampleLayout"
  have len: "Suc 3 < length ?cs" by (simp add: length_chunksFor exampleLayout_def)
  note inst = createFirstChunks_versions[OF examplePolicy_run]
  have a: "versionLess (getVersion (?cs ! 3)) (getVersion (?cs ! Suc 3))"
    by (rule inst[THEN conjunct2, THEN conjunct2, THEN conjunct1, THEN spec, THEN mp, OF len])
  have b: "map getVersion ?cs =
       [\<lparr>epoch = 42, timestamp = 7, majorVersion = 1, minorVersion = 0\<rparr>,
        \<lparr>epoch = 42, timestamp = 7, majorVersion = 1, minorVersion = 1\<rparr>,
        \<lparr>epoch = 42, timestamp = 7, majorVersion = 1, minorVersion = 2\<rparr>,
        \<lparr>epoch = 42, timestamp = 7, majorVersion = 1, minorVersion = 3\<rparr>,
        \<lparr>epoch = 42, timestamp = 7, majorVersion = 1, minorVersion = 4\<rparr>]"
    by (simp add: chunksFor_def makeChunk_def bumpMinor_def exampleLayout_def)
  show ?thesis
    apply (intro conjI)
      apply (rule examplePolicy_run)
     apply (rule b)
    apply (rule a)
    done
qed

section \<open>Hole chunks of the tags based policies\<close>

lemma exampleWholeZone_run:
  "tagsBasedCreateFirstChunks singleChunkPerTagBuildSplitInfoForTag [exampleWholeZone]
       [(''ZUS'', [''S1'', ''S2''])]
       \<lparr>m_tags = [exampleWholeZone], m_tagToShardIds = [(''ZUS'', [''S1'', ''S2''])],
        m_nextShardIndexForZone = []\<rparr>
       exampleContext examplePattern exampleParams =
     Inr (chunksFor exampleParams \<lparr>epoch = 42, timestamp = 7, majorVersion = 1, minorVersion = 0\<rparr>
            [([(''c'', MinKey), (''h'', MinKey)], [(''c'', MaxKey), (''h'', MaxKey)], ''S1'')])"
  by (simp add: exampleWholeZone_def exampleContext_def examplePattern_def exampleParams_def
      tagsBasedCreateFirstChunks_def processTag_def
      appendHoleChunk_def tagChunks_def singleChunkPerTagBuildSplitInfoForTag_def woCompare_def
      getAllShardIdsShuffled_def initialVersion_def globalMin_def globalMax_def wrapSizeT_def
      vectorAt_def appendChunk_def incMinor_def chunksFor_def makeChunk_def bumpMinor_def Let_def
      less_BSONValue_def less_eq_BSONValue_def)

text \<open>
  Claim C7. The chunks that the tags based createFirstChunks returns are exactly the layout
  of the specification. Each zone contributes the chunks laid out from the split points
  and the chunk distribution that buildSplitInfoForTag returned for it, and nothing else:
  they are not empty and run from the zone's min to the zone's max. With the running
  lastMax starting at the global minimum and the hole index at 0, before each zone whose
  min is strictly greater than lastMax there is exactly one hole chunk [lastMax, zone.min)
  on the next round-robin shard of the shuffled inventory; a zone whose min is not greater
  than lastMax, in particular one whose min equals lastMax, gets no hole chunk; and after
  the last zone there is exactly one final hole chunk [lastMax, globalMax) on the next
  round-robin shard if lastMax is strictly less than the global maximum, and none
  otherwise.
\<close>

theorem tagsBasedCreateFirstChunks_holes:
  assumes "tagsBasedCreateFirstChunks build tagList tagToShards policy opCtx pat params = Inr chunks"
  shows "map emitted chunks =
           specHoleLayout (getAllShardIdsShuffled opCtx) (globalMin pat) 0
             (zip tagList (zoneLayouts build pat policy tagList)) (globalMax pat) \<and>
         length (zoneLayouts build pat policy tagList) = length tagList \<and>
         list_all2 (\<lambda>z zc. zc \<noteq> [] \<and> chain (getMinKey z) zc (getMaxKey z)) tagList
           (zoneLayouts build pat policy tagList)"
proof -
  from tagsBased_layout[OF assms] obtain zcs where
    z: "list_all2 (\<lambda>z zc. zc \<noteq> [] \<and> chain (getMinKey z) zc (getMaxKey z)) tagList zcs" and
    x: "zcs = zoneLayouts build pat policy tagList" and
    c: "chunks = chunksFor params (initialVersion opCtx (clusterTime opCtx))
                       (specHoleLayout (getAllShardIdsShuffled opCtx) (globalMin pat) 0
                          (zip tagList zcs) (globalMax pat))"
    by auto
  have len: "length zcs = length tagList"
    using z by (simp add: list_all2_lengthD)
  have em: "map emitted chunks =
      specHoleLayout (getAllShardIdsShuffled opCtx) (globalMin pat) 0 (zip tagList zcs) (globalMax pat)"
    by (simp add: c map_emitted_chunksFor)
  show ?thesis
    using em len z unfolding x by (intro conjI)
qed

theorem tagsBasedCreateFirstChunks_holes_witness:
  "tagsBasedCreateFirstChunks singleChunkPerTagBuildSplitInfoForTag exampleZones
       [(''ZEU'', [''S2'']), (''ZUS'', [''S1'', ''S2''])]
       \<lparr>m_tags = exampleZones,
        m_tagToShardIds = [(''ZEU'', [''S2'']), (''ZUS'', [''S1'', ''S2''])],
        m_nextShardIndexForZone = []\<rparr>
       exampleContext examplePattern exampleParams =
     Inr (chunksFor exampleParams \<lparr>epoch = 42, timestamp = 7, majorVersion = 1, minorVersion = 0\<rparr>
            exampleLayout)
   \<and> zoneLayouts singleChunkPerTagBuildSplitInfoForTag examplePattern
        \<lparr>m_tags = exampleZones,
         m_tagToShardIds = [(''ZEU'', [''S2'']), (''ZUS'', [''S1'', ''S2''])],
         m_nextShardIndexForZone = []\<rparr> exampleZones =
       [[([(''c'', BsonString ''EU''), (''h'', MinKey)],
          [(''c'', BsonString ''EV''), (''h'', MinKey)], ''S2'')],
        [([(''c'', BsonString ''US''), (''h'', MinKey)],
          [(''c'', BsonString ''UT''), (''h'', MinKey)], ''S1'')]]
   \<and> exampleLayout =
       specHoleLayout [''S1'', ''S2'', ''S3''] (globalMin examplePattern) 0
        (zip exampleZones
           [[([(''c'', BsonString ''EU''), (''h'', MinKey)],
              [(''c'', BsonString ''EV''), (''h'', MinKey)], ''S2'')],
            [([(''c'', BsonString ''US''), (''h'', MinKey)],
              [(''c'', BsonString ''UT''), (''h'', MinKey)], ''S1'')]])
        (globalMax examplePattern)
   \<and> map (snd \<circ> snd) exampleLayout = [''S1'', ''S2'', ''S2'', ''S1'', ''S3'']
   \<and> tagsBasedCreateFirstChunks singleChunkPerTagBuildSplitInfoForTag [exampleWholeZone]
       [(''ZUS'', [''S1'', ''S2''])]
       \<lparr>m_tags = [exampleWholeZone], m_tagToShardIds = [(''ZUS'', [''S1'', ''S2''])],
        m_nextShardIndexForZone = []\<rparr>
       exampleContext examplePattern exampleParams =
     Inr (chunksFor exampleParams \<lparr>epoch = 42, timestamp = 7, majorVersion = 1, minorVersion = 0\<rparr>
            [([(''c'', MinKey), (''h'', MinKey)], [(''c'', MaxKey), (''h'', MaxKey)], ''S1'')])
   \<and> [([(''c'', MinKey), (''h'', MinKey)], [(''c'', MaxKey), (''h'', MaxKey)], ''S1'')] =
       specHoleLayout [''S1'', ''S2'', ''S3''] (globalMin examplePattern) 0
        (zip [exampleWholeZone]
           [[([(''c'', MinKey), (''h'', MinKey)], [(''c'', MaxKey), (''h'', MaxKey)], ''S1'')]])
        (globalMax examplePattern)"
proof -
  let ?pol = "\<lparr>m_tags = exampleZones,
        m_tagToShardIds = [(''ZEU'', [''S2'']), (''ZUS'', [''S1'', ''S2''])],
        m_nextShardIndexForZone = []\<rparr>"
  have run: "tagsBasedCreateFirstChunks singleChunkPerTagBuildSplitInfoForTag exampleZones
       [(''ZEU'', [''S2'']), (''ZUS'', [''S1'', ''S2''])] ?pol
       exampleContext examplePattern exampleParams =
     Inr (chunksFor exampleParams \<lparr>epoch = 42, timestamp = 7, majorVersion = 1, minorVersion = 0\<rparr>
            exampleLayout)"
    using examplePolicy_run by (simp add: examplePolicy_def)
  have ids: "getAllShardIdsShuffled exampleContext = [''S1'', ''S2'', ''S3'']"
    by (simp add: getAllShardIdsShuffled_def exampleContext_def)
  have zl: "zoneLayouts singleChunkPerTagBuildSplitInfoForTag examplePattern ?pol exampleZones =
       [[([(''c'', BsonString ''EU''), (''h'', MinKey)],
          [(''c'', BsonString ''EV''), (''h'', MinKey)], ''S2'')],
        [([(''c'', BsonString ''US''), (''h'', MinKey)],
          [(''c'', BsonString ''UT''), (''h'', MinKey)], ''S1'')]]"
    by (simp add: exampleZones_def singleChunkPerTagBuildSplitInfoForTag_def boundaryAt_def Let_def)
  note inst = tagsBasedCreateFirstChunks_holes[OF run, THEN conjunct1,
      unfolded map_emitted_chunksFor ids zl]
  have sh: "map (snd \<circ> snd) exampleLayout = [''S1'', ''S2'', ''S2'', ''S1'', ''S3'']"
    by (simp add: exampleLayout_def)
  have zw: "zoneLayouts singleChunkPerTagBuildSplitInfoForTag examplePattern
        \<lparr>m_tags = [exampleWholeZone], m_tagToShardIds = [(''ZUS'', [''S1'', ''S2''])],
         m_nextShardIndexForZone = []\<rparr> [exampleWholeZone] =
       [[([(''c'', MinKey), (''h'', MinKey)], [(''c'', MaxKey), (''h'', MaxKey)], ''S1'')]]"
    by (simp add: exampleWholeZone_def singleChunkPerTagBuildSplitInfoForTag_def boundaryAt_def Let_def)
  note whole = tagsBasedCreateFirstChunks_holes[OF exampleWholeZone_run, THEN conjunct1,
      unfolded map_emitted_chunksFor ids zw]
  show ?thesis
    apply (intro conjI)
         apply (rule run)
        apply (rule zl)
       apply (rule inst)
      apply (rule sh)
     apply (rule exampleWholeZone_run)
    apply (rule whole)
    done
qed

section \<open>The chunk quota of the pre-split zones\<close>

lemma ceilingOf_mult_ge:
  assumes "0 < y"
  shows "x \<le> ceilingOf x y * y"
proof -
  have "(x + y - 1) div y * y + (x + y - 1) mod y = x + y - 1" by simp
  moreover have "(x + y - 1) mod y < y" using assms by simp
  ultimately show ?thesis unfolding ceilingOf_def by linarith
qed

lemma ceilingOf_least:
  assumes "0 < y" and "x \<le> q * y"
  shows "ceilingOf x y \<le> q"
proof -
  have "x + y - 1 < Suc q * y" using assms by simp
  then have "(x + y - 1) div y < Suc q"
    using assms(1) by (simp add: div_less_iff_less_mult)
  then show ?thesis by (simp add: ceilingOf_def)
qed

lemma ceilOfXOverY_ceilingOf:
  assumes "ceilOfXOverY x y = Inr q"
  shows "0 < y \<and> q = ceilingOf x y"
proof -
  from assms have y: "0 < y" and q: "q = x div y + (if x mod y \<noteq> 0 then 1 else 0)"
    by (auto simp: ceilOfXOverY_def split: if_splits)
  have up: "x \<le> q * y"
  proof (cases "x mod y = 0")
    case True
    have "x = x div y * y + x mod y" by simp
    then have "x \<le> x div y * y" using True by linarith
    then show ?thesis using q True by simp
  next
    case False
    have "x = x div y * y + x mod y" by simp
    moreover have "x mod y < y" using y by simp
    ultimately have "x < x div y * y + y" by linarith
    then show ?thesis using q False by simp
  qed
  have low: "q \<le> ceilingOf x y"
  proof (cases "x mod y = 0")
    case True
    then have "q = x div y" using q by simp
    moreover have "x \<le> x + y - 1" using y by simp
    then have "x div y \<le> (x + y - 1) div y" by (rule div_le_mono)
    ultimately show ?thesis by (simp add: ceilingOf_def)
  next
    case False
    then have "0 < x mod y" by simp
    have "x div y * y < x"
    proof -
      have "x = x div y * y + x mod y" by simp
      then show ?thesis using \<open>0 < x mod y\<close> by linarith
    qed
    also have "x \<le> ceilingOf x y * y" by (rule ceilingOf_mult_ge[OF y])
    finally have "x div y < ceilingOf x y" using y by simp
    then show ?thesis using q False by simp
  qed
  from ceilingOf_least[OF y up] low have "q = ceilingOf x y" by simp
  then show ?thesis using y by simp
qed

lemma shardQuota_simps:
  "shardQuota policy cps shard st =
     (case ceilOfXOverY cps (numTagsOn policy shard) of
        Inl e \<Rightarrow> Inl e
      | Inr n \<Rightarrow> Inr (fst st @ [(shard, n)], intOfSizeT (wrapSizeT (sizeTOfInt (snd st) + n))))"
  by (simp add: shardQuota_def numTagsOn_def)

lemma forEachM_shardQuota:
  assumes "forEachM (shardQuota policy cps) shards st = Inr r"
  shows "fst r = fst st @ map (\<lambda>shard. (shard, ceilingOf cps (numTagsOn policy shard))) shards"
  using assms
proof (induction shards arbitrary: st)
  case Nil
  then show ?case by simp
next
  case (Cons s shards)
  from Cons.prems obtain st1 where
    one: "shardQuota policy cps s st = Inr st1" and
    run: "forEachM (shardQuota policy cps) shards st1 = Inr r"
    by (auto split: sum.splits)
  from one obtain n where
    n: "ceilOfXOverY cps (numTagsOn policy s) = Inr n" and
    st1: "fst st1 = fst st @ [(s, n)]"
    by (auto simp: shardQuota_simps split: sum.splits)
  from ceilOfXOverY_ceilingOf[OF n] have "n = ceilingOf cps (numTagsOn policy s)" by simp
  then show ?case using Cons.IH[OF run] st1 by simp
qed

lemma presplitBuild_distribution:
  assumes "presplitBuildSplitInfoForTag policy z pat = Inr built"
  shows "snd built = policy \<and>
         chunkDistributionOf (fst built) =
           map (\<lambda>shard. (shard, specShardQuota policy shard)) (shardsOfTag policy z)"
proof -
  from assms obtain cps shards r where
    c: "ceilOfXOverY (m_numInitialChunks policy) (length (m_numTagsPerShard policy)) = Inr cps" and
    s: "map_of (m_tagToShardIds policy) (getTag z) = Some shards" and
    q: "forEachM (shardQuota policy cps) shards ([], 0) = Inr r" and
    b: "snd built = policy" "chunkDistributionOf (fst built) = fst r"
    by (auto simp: presplitBuildSplitInfoForTag_def Let_def split: sum.splits option.splits)
  from ceilOfXOverY_ceilingOf[OF c] have
    cps: "cps = ceilingOf (m_numInitialChunks policy) (length (m_numTagsPerShard policy))"
    by simp
  from forEachM_shardQuota[OF q] have
    "fst r = map (\<lambda>shard. (shard, ceilingOf cps (numTagsOn policy shard))) shards"
    by simp
  then show ?thesis using b s cps by (simp add: specShardQuota_def shardsOfTag_def)
qed

lemma length_specZoneLayout: "length (specZoneLayout z sps idx dist) = sum_list (map snd dist)"
  by (induction dist arbitrary: idx) simp_all

lemma presplit_zoneLayouts_length:
  assumes "length (zoneLayouts presplitBuildSplitInfoForTag pat policy zs) = length zs"
  shows "map length (zoneLayouts presplitBuildSplitInfoForTag pat policy zs) =
           map (specZoneChunks policy) zs"
  using assms
proof (induction zs)
  case Nil
  then show ?case by simp
next
  case (Cons z zs)
  from Cons.prems obtain built where
    b: "presplitBuildSplitInfoForTag policy z pat = Inr built"
    by (cases "presplitBuildSplitInfoForTag policy z pat") auto
  from presplitBuild_distribution[OF b] have
    p: "snd built = policy" and
    d: "chunkDistributionOf (fst built) =
          map (\<lambda>shard. (shard, specShardQuota policy shard)) (shardsOfTag policy z)"
    by simp_all
  have "sum_list (map snd (chunkDistributionOf (fst built))) = specZoneChunks policy z"
    by (simp add: d specZoneChunks_def comp_def)
  then show ?case using Cons b p by (simp add: length_specZoneLayout)
qed

lemma length_specHoleLayout_ge:
  assumes "length ts = length zcs"
  shows "sum_list (map length zcs) \<le> length (specHoleLayout allShards lastMax h (zip ts zcs) gMax)"
  using assms
proof (induction ts zcs arbitrary: lastMax h rule: list_induct2)
  case Nil
  then show ?case by simp
next
  case (Cons t ts zc zcs)
  have a: "sum_list (map length zcs)
      \<le> length (specHoleLayout allShards (getMaxKey t) (h + 1) (zip ts zcs) gMax)"
    by (rule Cons.IH)
  have b: "sum_list (map length zcs)
      \<le> length (specHoleLayout allShards (getMaxKey t) h (zip ts zcs) gMax)"
    by (rule Cons.IH)
  show ?case using a b by simp
qed

lemma count_update_step:
  fixes m :: "(string \<times> nat) list"
  assumes "distinct (map fst m)"
  shows "distinct (map fst (AList.update x v m)) \<and>
         set (map fst (AList.update x v m)) = insert x (set (map fst m)) \<and>
         map_of (AList.update x v m) = (map_of m)(x \<mapsto> v)"
  using assms by (auto simp: AList.distinct_update AList.update_conv' AList.dom_update)

lemma fold_count_update:
  fixes m :: "(string \<times> nat) list"
  assumes "distinct (map fst m)"
  shows "distinct (map fst (fold (\<lambda>shard m. AList.update shard
                       ((case map_of m shard of None \<Rightarrow> 0 | Some n \<Rightarrow> n) + 1) m) shards m)) \<and>
         set (map fst (fold (\<lambda>shard m. AList.update shard
                       ((case map_of m shard of None \<Rightarrow> 0 | Some n \<Rightarrow> n) + 1) m) shards m)) =
           set (map fst m) \<union> set shards \<and>
         (\<forall>s. (case map_of (fold (\<lambda>shard m. AList.update shard
                       ((case map_of m shard of None \<Rightarrow> 0 | Some n \<Rightarrow> n) + 1) m) shards m) s of
                  None \<Rightarrow> 0 | Some n \<Rightarrow> n) =
              (case map_of m s of None \<Rightarrow> 0 | Some n \<Rightarrow> n) + count_list shards s)"
  using assms
proof (induction shards arbitrary: m)
  case Nil
  then show ?case by simp
next
  case (Cons x shards)
  let ?v = "(case map_of m x of None \<Rightarrow> 0 | Some n \<Rightarrow> n) + 1"
  let ?m1 = "AList.update x ?v m"
  note st = count_update_step[OF Cons.prems, of x ?v]
  from st have d1: "distinct (map fst ?m1)" by simp
  note ih = Cons.IH[OF d1]
  have k: "set (map fst ?m1) = insert x (set (map fst m))" using st by simp
  have g: "(case map_of ?m1 s of None \<Rightarrow> 0 | Some n \<Rightarrow> n) =
             (case map_of m s of None \<Rightarrow> 0 | Some n \<Rightarrow> n) + (if x = s then 1 else 0)" for s
    using st by (auto split: option.splits)
  have A: "distinct (map fst (fold (\<lambda>shard m. AList.update shard
                       ((case map_of m shard of None \<Rightarrow> 0 | Some n \<Rightarrow> n) + 1) m) (x # shards) m))"
    using ih by simp
  have B: "set (map fst (fold (\<lambda>shard m. AList.update shard
                       ((case map_of m shard of None \<Rightarrow> 0 | Some n \<Rightarrow> n) + 1) m) (x # shards) m)) =
           set (map fst m) \<union> set (x # shards)"
    using ih k by auto
  have C: "(case map_of (fold (\<lambda>shard m. AList.update shard
                       ((case map_of m shard of None \<Rightarrow> 0 | Some n \<Rightarrow> n) + 1) m) (x # shards) m) s of
                  None \<Rightarrow> 0 | Some n \<Rightarrow> n) =
              (case map_of m s of None \<Rightarrow> 0 | Some n \<Rightarrow> n) + count_list (x # shards) s" for s
    using ih[THEN conjunct2, THEN conjunct2, THEN spec, of s] g[of s] by simp
  show ?case using A B C by blast
qed

lemma countTagsOnShards_simps:
  "countTagsOnShards tts z m =
     (case map_of tts (getTag z) of
        None \<Rightarrow> Inl UndefinedBehaviour
      | Some shardsForCurrentTag \<Rightarrow>
          Inr (fold (\<lambda>shard m. AList.update shard
                       ((case map_of m shard of None \<Rightarrow> 0 | Some n \<Rightarrow> n) + 1) m)
                 shardsForCurrentTag m))"
  by (simp add: countTagsOnShards_def)

lemma forEachM_countTagsOnShards:
  fixes m :: "(string \<times> nat) list"
  assumes "forEachM (countTagsOnShards tts) zs m = Inr m'" and "distinct (map fst m)"
  shows "distinct (map fst m') \<and>
         set (map fst m') =
           set (map fst m) \<union>
           set (concat (map (\<lambda>z. case map_of tts (getTag z) of None \<Rightarrow> [] | Some l \<Rightarrow> l) zs)) \<and>
         (\<forall>s. (case map_of m' s of None \<Rightarrow> 0 | Some n \<Rightarrow> n) =
              (case map_of m s of None \<Rightarrow> 0 | Some n \<Rightarrow> n) +
              count_list (concat (map (\<lambda>z. case map_of tts (getTag z) of None \<Rightarrow> [] | Some l \<Rightarrow> l) zs)) s)"
  using assms
proof (induction zs arbitrary: m)
  case Nil
  then show ?case by simp
next
  case (Cons z zs)
  from Cons.prems(1) obtain m1 where
    one: "countTagsOnShards tts z m = Inr m1" and
    run: "forEachM (countTagsOnShards tts) zs m1 = Inr m'"
    by (auto split: sum.splits)
  from one obtain shards where
    s: "map_of tts (getTag z) = Some shards" and
    m1: "m1 = fold (\<lambda>shard m. AList.update shard
                       ((case map_of m shard of None \<Rightarrow> 0 | Some n \<Rightarrow> n) + 1) m) shards m"
    by (auto simp: countTagsOnShards_simps split: option.splits)
  note f = fold_count_update[OF Cons.prems(2), of shards, folded m1]
  from f have d1: "distinct (map fst m1)" by simp
  note ih = Cons.IH[OF run d1]
  let ?L = "\<lambda>zs. concat (map (\<lambda>z. case map_of tts (getTag z) of None \<Rightarrow> [] | Some l \<Rightarrow> l) zs)"
  have L: "?L (z # zs) = shards @ ?L zs" using s by simp
  have A: "distinct (map fst m')" using ih by simp
  have B: "set (map fst m') = set (map fst m) \<union> set (?L (z # zs))"
    unfolding L using ih f by auto
  have C: "(case map_of m' s of None \<Rightarrow> 0 | Some n \<Rightarrow> n) =
              (case map_of m s of None \<Rightarrow> 0 | Some n \<Rightarrow> n) + count_list (?L (z # zs)) s" for s
    unfolding L
    using ih[THEN conjunct2, THEN conjunct2, THEN spec, of s]
      f[THEN conjunct2, THEN conjunct2, THEN spec, of s] by simp
  show ?case using A B C by blast
qed

lemma quota_sum_ge:
  assumes "\<forall>s\<in>set L. c s = count_list L s"
  shows "card (set L) * cps \<le> sum_list (map (\<lambda>s. ceilingOf cps (c s)) L)"
proof -
  have "sum_list (map (\<lambda>s. ceilingOf cps (c s)) L) =
          (\<Sum>x\<in>set L. count_list L x * ceilingOf cps (c x))"
    by (rule sum_list_map_eq_sum_count)
  moreover have "(\<Sum>x\<in>set L. cps) \<le> (\<Sum>x\<in>set L. count_list L x * ceilingOf cps (c x))"
  proof (rule sum_mono)
    fix x assume x: "x \<in> set L"
    then have "count_list L x \<noteq> 0" by (simp add: count_list_0_iff)
    then have pos: "0 < count_list L x" by simp
    have "cps \<le> ceilingOf cps (count_list L x) * count_list L x"
      by (rule ceilingOf_mult_ge[OF pos])
    then show "cps \<le> count_list L x * ceilingOf cps (c x)"
      using assms x by (simp add: mult.commute)
  qed
  ultimately show ?thesis by simp
qed

lemma constructPresplit_facts:
  assumes "constructPresplitHashedZones opCtx pat tagList numInitialChunks isCollectionEmpty = Inr policy"
  shows "m_tags policy = tagList \<and> tagList \<noteq> [] \<and> m_numTagsPerShard policy \<noteq> [] \<and>
         distinct (map fst (m_numTagsPerShard policy)) \<and>
         set (map fst (m_numTagsPerShard policy)) = set (concat (map (shardsOfTag policy) tagList)) \<and>
         (\<forall>s. numTagsOn policy s = count_list (concat (map (shardsOfTag policy) tagList)) s) \<and>
         m_numInitialChunks policy =
           (if numInitialChunks \<noteq> 0 then numInitialChunks else length (m_numTagsPerShard policy) * 2)"
proof -
  from assms obtain tts ntps where
    v: "validate pat tagList isCollectionEmpty = Inr ()" and
    cnt: "forEachM (countTagsOnShards tts) tagList [] = Inr ntps" and
    ne: "ntps \<noteq> []" and
    pol: "policy = \<lparr>m_tags = tagList, m_tagToShardIds = tts,
                     m_numInitialChunks =
                       (if numInitialChunks \<noteq> 0 then numInitialChunks else length ntps * 2),
                     m_numTagsPerShard = ntps\<rparr>"
    unfolding constructPresplitHashedZones_def
    by (simp split: sum.splits if_splits)
  from v have tne: "tagList \<noteq> []"
    by (auto simp: validate_def split: if_splits)
  have sh: "shardsOfTag policy = (\<lambda>z. case map_of tts (getTag z) of None \<Rightarrow> [] | Some l \<Rightarrow> l)"
    by (simp add: shardsOfTag_def pol fun_eq_iff)
  have nt: "numTagsOn policy s = (case map_of ntps s of None \<Rightarrow> 0 | Some n \<Rightarrow> n)" for s
    by (simp add: numTagsOn_def pol)
  note f = forEachM_countTagsOnShards[OF cnt, folded sh]
  have d: "distinct (map fst ntps)" using f by simp
  have k: "set (map fst ntps) = set (concat (map (shardsOfTag policy) tagList))"
    using f by simp
  have c: "numTagsOn policy s = count_list (concat (map (shardsOfTag policy) tagList)) s" for s
    unfolding nt using f[THEN conjunct2, THEN conjunct2, THEN spec, of s] by simp
  have p: "m_tags policy = tagList" "m_numTagsPerShard policy = ntps"
    "m_numInitialChunks policy =
       (if numInitialChunks \<noteq> 0 then numInitialChunks else length ntps * 2)"
    by (simp_all add: pol)
  show ?thesis
    unfolding p using tne ne d k c by (simp add: p)
qed

lemma sum_list_map_concat:
  "sum_list (map f (concat xss)) = sum_list (map (\<lambda>xs. sum_list (map f xs)) xss)"
  for f :: "'a \<Rightarrow> nat"
  by (induction xss) simp_all

lemma presplit_quota_total:
  assumes "constructPresplitHashedZones opCtx pat tagList numInitialChunks isCollectionEmpty = Inr policy"
  shows "m_numInitialChunks policy \<le> sum_list (map (specZoneChunks policy) tagList)"
proof -
  let ?L = "concat (map (shardsOfTag policy) tagList)"
  let ?K = "length (m_numTagsPerShard policy)"
  let ?N = "m_numInitialChunks policy"
  let ?cps = "ceilingOf ?N ?K"
  note facts = constructPresplit_facts[OF assms]
  have K: "?K = card (set ?L)"
    using facts distinct_card[of "map fst (m_numTagsPerShard policy)"] by simp
  have pos: "0 < ?K" using facts by simp
  have "?N \<le> ?cps * ?K" by (rule ceilingOf_mult_ge[OF pos])
  also have "\<dots> = card (set ?L) * ?cps" using K by (simp add: mult.commute)
  also have "\<dots> \<le> sum_list (map (\<lambda>s. ceilingOf ?cps (numTagsOn policy s)) ?L)"
    by (rule quota_sum_ge) (use facts in simp)
  also have "\<dots> = sum_list (map (specShardQuota policy) ?L)"
  proof -
    have "(\<lambda>s. ceilingOf ?cps (numTagsOn policy s)) = specShardQuota policy"
      by (simp add: fun_eq_iff specShardQuota_def)
    then show ?thesis by (simp only:)
  qed
  also have "\<dots> = sum_list (map (specZoneChunks policy) tagList)"
  proof -
    have "specZoneChunks policy = (\<lambda>z. sum_list (map (specShardQuota policy) (shardsOfTag policy z)))"
      by (simp add: fun_eq_iff specZoneChunks_def)
    then show ?thesis by (simp add: sum_list_map_concat comp_def)
  qed
  finally show ?thesis .
qed

lemma presplit_run_count:
  assumes "createFirstChunks (PresplitHashedZones policy) opCtx pat params = Inr chunks"
  shows "map length (zoneLayouts presplitBuildSplitInfoForTag pat policy (m_tags policy)) =
           map (specZoneChunks policy) (m_tags policy) \<and>
         sum_list (map (specZoneChunks policy) (m_tags policy)) \<le> length chunks"
proof -
  let ?zl = "zoneLayouts presplitBuildSplitInfoForTag pat policy (m_tags policy)"
  from assms have run: "tagsBasedCreateFirstChunks presplitBuildSplitInfoForTag
       (m_tags policy) (m_tagToShardIds policy) policy opCtx pat params = Inr chunks"
    by simp
  from tagsBased_layout[OF run] obtain zcs where
    z: "list_all2 (\<lambda>z zc. zc \<noteq> [] \<and> chain (getMinKey z) zc (getMaxKey z)) (m_tags policy) zcs" and
    x: "zcs = ?zl" and
    c: "chunks = chunksFor params (initialVersion opCtx (clusterTime opCtx))
                       (specHoleLayout (getAllShardIdsShuffled opCtx) (globalMin pat) 0
                          (zip (m_tags policy) zcs) (globalMax pat))"
    by auto
  have len: "length ?zl = length (m_tags policy)"
    using z x by (simp add: list_all2_lengthD)
  have one: "map length ?zl = map (specZoneChunks policy) (m_tags policy)"
    by (rule presplit_zoneLayouts_length[OF len])
  have "sum_list (map length ?zl) \<le> length chunks"
    unfolding c length_chunksFor x
    by (rule length_specHoleLayout_ge) (simp add: len)
  then show ?thesis using one by simp
qed

lemma examplePresplit_constructed:
  "constructPresplitHashedZones exampleContext examplePattern exampleZones 0 True = Inr examplePresplit"
  by (simp add: constructPresplitHashedZones_def buildTagsToShardIdsMap_def exampleContext_def
        addShardDoc_simps pushBackShard_def validate_def validateTag_def examplePattern_def
        exampleZones_def isHashedPattern_def hasHashedPrefix_def getHashedField_def itDeref_def
        itAdvance_def fieldNameAt_def countTagsOnShards_simps examplePresplit_def)

lemma examplePresplit_build_ZEU:
  "presplitBuildSplitInfoForTag examplePresplit
      \<lparr>getNS = ''db.coll'', getTag = ''ZEU'',
       getMinKey = [(''c'', BsonString ''EU''), (''h'', MinKey)],
       getMaxKey = [(''c'', BsonString ''EV''), (''h'', MinKey)]\<rparr>
      [(''c'', Ascending), (''h'', Hashed)] =
   Inr (\<lparr>splitPointsOf = [], chunkDistributionOf = [(''S2'', Suc 0)]\<rparr>, examplePresplit)"
  by (simp add: examplePresplit_def presplitBuildSplitInfoForTag_def
      shardQuota_simps numTagsOn_def ceilOfXOverY_def intOfSizeT_def sizeTOfInt_def wrapSizeT_def
      calculateHashedSplitPoints_def isHashedPattern_def getHashedField_def buildSplitPoint_def
      fieldsAfterHashed_def wrapLongLong_def LLONG_MAX_def Let_def numeral_2_eq_2[symmetric]
      less_BSONValue_def less_eq_BSONValue_def)

lemma examplePresplit_build_ZUS:
  "presplitBuildSplitInfoForTag examplePresplit
      \<lparr>getNS = ''db.coll'', getTag = ''ZUS'',
       getMinKey = [(''c'', BsonString ''US''), (''h'', MinKey)],
       getMaxKey = [(''c'', BsonString ''UT''), (''h'', MinKey)]\<rparr>
      [(''c'', Ascending), (''h'', Hashed)] =
   Inr (\<lparr>splitPointsOf =
          [[(''c'', BsonString ''US''), (''h'', NumberLong (- 3074457345618258602))],
           [(''c'', BsonString ''US''), (''h'', NumberLong 3074457345618258602)]],
         chunkDistributionOf = [(''S1'', Suc (Suc 0)), (''S2'', Suc 0)]\<rparr>, examplePresplit)"
  by (simp add: examplePresplit_def presplitBuildSplitInfoForTag_def
      shardQuota_simps numTagsOn_def ceilOfXOverY_def intOfSizeT_def sizeTOfInt_def wrapSizeT_def
      calculateHashedSplitPoints_def isHashedPattern_def getHashedField_def buildSplitPoint_def
      fieldsAfterHashed_def wrapLongLong_def LLONG_MAX_def Let_def numeral_2_eq_2[symmetric]
      less_BSONValue_def less_eq_BSONValue_def)

lemma examplePresplit_fields:
  "m_tags examplePresplit = exampleZones"
  "m_tagToShardIds examplePresplit = [(''ZEU'', [''S2'']), (''ZUS'', [''S1'', ''S2''])]"
  by (simp_all add: examplePresplit_def)

lemma examplePresplit_run:
  "createFirstChunks (PresplitHashedZones examplePresplit) exampleContext examplePattern exampleParams =
     Inr (chunksFor exampleParams \<lparr>epoch = 42, timestamp = 7, majorVersion = 1, minorVersion = 0\<rparr>
            examplePresplitLayout)"
  by (simp add: examplePresplit_fields examplePresplit_build_ZEU examplePresplit_build_ZUS
      exampleContext_def examplePattern_def exampleParams_def
      exampleZones_def examplePresplitLayout_def tagsBasedCreateFirstChunks_def processTag_def
      appendHoleChunk_def tagChunks_def woCompare_def
      getAllShardIdsShuffled_def initialVersion_def globalMin_def globalMax_def wrapSizeT_def
      vectorAt_def appendChunk_def incMinor_def chunksFor_def makeChunk_def bumpMinor_def Let_def
      less_BSONValue_def less_eq_BSONValue_def)

text \<open>
  Claim C3. For the policy that the constructor of PresplitHashedZonesSplitPolicy builds:
  the tag list is not empty; numTagsPerShard has one entry for each shard that carries at
  least one of the tags; numInitialChunks is the caller's value, or 2 times the number
  of those shards when the caller passes 0; buildSplitInfoForTag assigns each shard of the
  zone, in the order of the zone's shard list,
  ceil(ceil(numInitialChunks / |numTagsPerShard|) / numTagsPerShard[shard]) chunks; these
  quotas add up, over all zones, to at least numInitialChunks; and when createFirstChunks
  returns, each zone has produced exactly its quota of chunks, so the chunks of the zones,
  and all the more the chunks returned, are at least numInitialChunks.
\<close>

theorem presplitHashedZones_chunk_count:
  assumes "constructPresplitHashedZones opCtx pat tagList numInitialChunks isCollectionEmpty = Inr policy"
  shows "tagList \<noteq> [] \<and>
         length (m_numTagsPerShard policy) = card (\<Union>z\<in>set tagList. set (shardsOfTag policy z)) \<and>
         m_numInitialChunks policy =
           (if numInitialChunks = 0 then 2 * length (m_numTagsPerShard policy) else numInitialChunks) \<and>
         (\<forall>z built. presplitBuildSplitInfoForTag policy z pat' = Inr built \<longrightarrow>
            chunkDistributionOf (fst built) =
              map (\<lambda>shard. (shard, specShardQuota policy shard)) (shardsOfTag policy z)) \<and>
         m_numInitialChunks policy \<le> sum_list (map (specZoneChunks policy) tagList) \<and>
         (\<forall>chunks. createFirstChunks (PresplitHashedZones policy) opCtx' pat' params = Inr chunks \<longrightarrow>
            map length (zoneLayouts presplitBuildSplitInfoForTag pat' policy tagList) =
              map (specZoneChunks policy) tagList \<and>
            sum_list (map (specZoneChunks policy) tagList) \<le> length chunks \<and>
            m_numInitialChunks policy \<le> length chunks)"
proof -
  note facts = constructPresplit_facts[OF assms]
  have tags: "m_tags policy = tagList" using facts by simp
  have ne: "tagList \<noteq> []" using facts by simp
  have "length (m_numTagsPerShard policy) = card (set (map fst (m_numTagsPerShard policy)))"
    using facts distinct_card[of "map fst (m_numTagsPerShard policy)"] by simp
  also have "set (map fst (m_numTagsPerShard policy)) = (\<Union>z\<in>set tagList. set (shardsOfTag policy z))"
    using facts by simp
  finally have K: "length (m_numTagsPerShard policy) =
      card (\<Union>z\<in>set tagList. set (shardsOfTag policy z))" .
  have N: "m_numInitialChunks policy =
      (if numInitialChunks = 0 then 2 * length (m_numTagsPerShard policy) else numInitialChunks)"
    using facts by simp
  have D: "\<forall>z built. presplitBuildSplitInfoForTag policy z pat' = Inr built \<longrightarrow>
            chunkDistributionOf (fst built) =
              map (\<lambda>shard. (shard, specShardQuota policy shard)) (shardsOfTag policy z)"
    using presplitBuild_distribution by blast
  have T: "m_numInitialChunks policy \<le> sum_list (map (specZoneChunks policy) tagList)"
    by (rule presplit_quota_total[OF assms])
  have R: "map length (zoneLayouts presplitBuildSplitInfoForTag pat' policy tagList) =
              map (specZoneChunks policy) tagList \<and>
            sum_list (map (specZoneChunks policy) tagList) \<le> length chunks \<and>
            m_numInitialChunks policy \<le> length chunks"
    if run: "createFirstChunks (PresplitHashedZones policy) opCtx' pat' params = Inr chunks" for chunks
  proof -
    note c = presplit_run_count[OF run, unfolded tags]
    from c T have "m_numInitialChunks policy \<le> length chunks" by linarith
    then show ?thesis using c by simp
  qed
  show ?thesis
    apply (intro conjI allI impI)
           apply (rule ne)
          apply (rule K)
         apply (rule N)
        apply (erule D[THEN spec, THEN spec, THEN mp])
       apply (rule T)
      apply (erule R[THEN conjunct1])
     apply (erule R[THEN conjunct2, THEN conjunct1])
    apply (erule R[THEN conjunct2, THEN conjunct2])
    done
qed

theorem presplitHashedZones_chunk_count_witness:
  "constructPresplitHashedZones exampleContext examplePattern exampleZones 0 True = Inr examplePresplit
   \<and> m_numInitialChunks examplePresplit = 2 * length (m_numTagsPerShard examplePresplit)
   \<and> length (m_numTagsPerShard examplePresplit) = 2
   \<and> createFirstChunks (PresplitHashedZones examplePresplit) exampleContext examplePattern exampleParams =
       Inr (chunksFor exampleParams \<lparr>epoch = 42, timestamp = 7, majorVersion = 1, minorVersion = 0\<rparr>
              examplePresplitLayout)
   \<and> map (specZoneChunks examplePresplit) exampleZones = [1, 3]
   \<and> map length (zoneLayouts presplitBuildSplitInfoForTag examplePattern examplePresplit exampleZones) =
       map (specZoneChunks examplePresplit) exampleZones
   \<and> m_numInitialChunks examplePresplit \<le>
       length (chunksFor exampleParams
                 \<lparr>epoch = 42, timestamp = 7, majorVersion = 1, minorVersion = 0\<rparr> examplePresplitLayout)
   \<and> length (chunksFor exampleParams
                 \<lparr>epoch = 42, timestamp = 7, majorVersion = 1, minorVersion = 0\<rparr> examplePresplitLayout) = 7"
proof -
  note inst = presplitHashedZones_chunk_count[OF examplePresplit_constructed,
      where opCtx' = exampleContext and pat' = examplePattern and params = exampleParams]
  note r = inst[THEN conjunct2, THEN conjunct2, THEN conjunct2, THEN conjunct2, THEN conjunct2,
      THEN spec, THEN mp, OF examplePresplit_run]
  have n: "m_numInitialChunks examplePresplit = 2 * length (m_numTagsPerShard examplePresplit)"
    using inst[THEN conjunct2, THEN conjunct2, THEN conjunct1] by simp
  have k: "length (m_numTagsPerShard examplePresplit) = 2"
    by (simp add: examplePresplit_def)
  have q: "map (specZoneChunks examplePresplit) exampleZones = [1, 3]"
    by (simp add: specZoneChunks_def specShardQuota_def shardsOfTag_def numTagsOn_def ceilingOf_def
        examplePresplit_def exampleZones_def numeral_2_eq_2[symmetric])
  have l: "length (chunksFor exampleParams
                 \<lparr>epoch = 42, timestamp = 7, majorVersion = 1, minorVersion = 0\<rparr> examplePresplitLayout) = 7"
    by (simp add: length_chunksFor examplePresplitLayout_def)
  show ?thesis
    apply (intro conjI)
           apply (rule examplePresplit_constructed)
          apply (rule n)
         apply (rule k)
        apply (rule examplePresplit_run)
       apply (rule q)
      apply (rule r[THEN conjunct1])
     apply (rule r[THEN conjunct2, THEN conjunct2])
    apply (rule l)
    done
qed

end
